theory Spec2Isabelle
  imports Complex_Main "HOL-Library.Sublist" "HOL-Library.Log_Nat"
begin

section \<open>Python strings\<close>

text \<open>
  A Python \<open>str\<close> is modelled as a \<open>string\<close>: every \<open>char\<close> is one code point
  of the range U+0000 .. U+00FF, so \<open>length\<close> is Python's \<open>len\<close>. The character classes
  below are the ones CPython uses on that range: \<open>str.isspace\<close>, which is also the class
  \<open>\s\<close> of \<open>re\<close> on \<open>str\<close> patterns and the class removed by \<open>str.strip()\<close> and
  \<open>str.split()\<close>; the class \<open>\d\<close>; and \<open>str.lower\<close>.
\<close>

definition is_space :: "char \<Rightarrow> bool" where
  "is_space c =
     (let n = (of_char c :: int)
      in (9 \<le> n \<and> n \<le> 13) \<or> (28 \<le> n \<and> n \<le> 32) \<or> n = 133 \<or> n = 160)"

definition is_digit :: "char \<Rightarrow> bool" where
  "is_digit c = (let n = (of_char c :: int) in 48 \<le> n \<and> n \<le> 57)"

definition lower_char :: "char \<Rightarrow> char" where
  "lower_char c =
     (let n = (of_char c :: int)
      in if (65 \<le> n \<and> n \<le> 90) \<or> (192 \<le> n \<and> n \<le> 222 \<and> n \<noteq> 215)
         then char_of (n + 32) else c)"

text \<open>\<open>s.lower()\<close>\<close>

definition lower :: "string \<Rightarrow> string" where
  "lower s = map lower_char s"

text \<open>\<open>s.strip()\<close>: whitespace is removed at both ends.\<close>

definition lstrip :: "string \<Rightarrow> string" where
  "lstrip s = dropWhile is_space s"

definition rstrip :: "string \<Rightarrow> string" where
  "rstrip s = rev (dropWhile is_space (rev s))"

definition strip :: "string \<Rightarrow> string" where
  "strip s = rstrip (lstrip s)"

text \<open>\<open>re.sub(r'\s+', ' ', s)\<close>: every maximal run of whitespace becomes one space.\<close>

function sub_spaces :: "string \<Rightarrow> string" where
  "sub_spaces [] = []"
| "sub_spaces (c # cs) =
     (if is_space c then CHR '' '' # sub_spaces (dropWhile is_space cs)
      else c # sub_spaces cs)"
  by pat_completeness auto
termination
  by (relation "measure length") (auto simp: le_imp_less_Suc length_dropWhile_le)

text \<open>\<open>s.split()\<close>: the maximal runs of non-whitespace characters, in order.\<close>

function split :: "string \<Rightarrow> string list" where
  "split s =
     (case dropWhile is_space s of
        [] \<Rightarrow> []
      | c # cs \<Rightarrow> (c # takeWhile (\<lambda>x. \<not> is_space x) cs)
                 # split (dropWhile (\<lambda>x. \<not> is_space x) cs))"
  by pat_completeness auto
termination
proof (relation "measure length", simp, goal_cases)
  case (1 s c cs)
  have "length (dropWhile (\<lambda>x. \<not> is_space x) cs) \<le> length cs"
    by (rule length_dropWhile_le)
  moreover have "length (c # cs) \<le> length s"
    using length_dropWhile_le [of is_space s] 1 by simp
  ultimately show ?case by simp
qed

declare split.simps [simp del]

text \<open>\<open>a in b\<close> on strings: \<open>a\<close> occurs in \<open>b\<close> as a contiguous substring.\<close>

fun str_in :: "string \<Rightarrow> string \<Rightarrow> bool" where
  "str_in a [] = (a = [])"
| "str_in a (c # cs) = (prefix a (c # cs) \<or> str_in a cs)"

section \<open>The normalizer\<close>

text \<open>
  \<^verbatim>\<open>
  def normalize_text(text):
      if not text:
          return ""
      return re.sub(r'\s+', ' ', text.lower().strip())
  \<close>
\<close>

definition normalize_text :: "string \<Rightarrow> string" where
  "normalize_text text =
     (if text = [] then [] else sub_spaces (strip (lower text)))"

section \<open>Python floats\<close>

text \<open>
  A Python \<open>float\<close> is an IEEE 754 binary64 number. A finite one is modelled by its
  exact rational value, with the negative zero apart; every operation computes the exact
  result and rounds it to the nearest binary64 number, ties to even, as the hardware
  does. \<open>Finite 0\<close> is the positive zero.
\<close>

datatype pyfloat = Finite rat | NegZero | PosInf | NegInf | NaN

definition pow2 :: "int \<Rightarrow> rat" where
  "pow2 e = (if 0 \<le> e then 2 ^ nat e else 1 / 2 ^ nat (- e))"

text \<open>For \<open>x > 0\<close>, the exponent \<open>e\<close> with \<open>2^e \<le> x < 2^(e+1)\<close>.\<close>

definition floor_log2 :: "rat \<Rightarrow> int" where
  "floor_log2 x =
     (let (p, q) = quotient_of x; d = bitlen p - bitlen q
      in if pow2 d \<le> x then d else d - 1)"

definition round_half_even :: "rat \<Rightarrow> int" where
  "round_half_even x =
     (let f = \<lfloor>x\<rfloor>; r = x - of_int f
      in if r < 1 / 2 then f else if 1 / 2 < r then f + 1
         else if even f then f else f + 1)"

text \<open>
  The spacing of the binary64 numbers around \<open>x > 0\<close>: 53 significant bits above
  the exponent of \<open>x\<close>, which is held at -1022 for the subnormal numbers (their
  spacing is \<open>2^-1074\<close>).
\<close>

definition expo :: "rat \<Rightarrow> int" where
  "expo x = max (floor_log2 x) (- 1022)"

definition quantum :: "rat \<Rightarrow> rat" where
  "quantum x = pow2 (expo x - 52)"

definition round_mag :: "rat \<Rightarrow> rat" where
  "round_mag x = of_int (round_half_even (x / quantum x)) * quantum x"

text \<open>
  Rounding an exact value: overflow (a rounded magnitude of \<open>2^1024\<close> or more, past the
  largest exponent 1023) gives an infinity, underflow a signed zero.
\<close>

definition to_double :: "rat \<Rightarrow> pyfloat" where
  "to_double x =
     (if x = 0 then Finite 0
      else let m = round_mag \<bar>x\<bar>
           in if m = 0 then (if 0 < x then Finite 0 else NegZero)
              else if 1024 \<le> floor_log2 m then (if 0 < x then PosInf else NegInf)
              else Finite (if 0 < x then m else - m))"

text \<open>The value of a finite float, and whether the sign bit of a float is set.\<close>

fun fval :: "pyfloat \<Rightarrow> rat" where
  "fval (Finite r) = r"
| "fval _ = 0"

fun is_finite :: "pyfloat \<Rightarrow> bool" where
  "is_finite (Finite r) = True"
| "is_finite NegZero = True"
| "is_finite _ = False"

fun fneg_sign :: "pyfloat \<Rightarrow> bool" where
  "fneg_sign (Finite r) = (r < 0)"
| "fneg_sign NegZero = True"
| "fneg_sign NegInf = True"
| "fneg_sign _ = False"

text \<open>\<open>a <= b\<close> on floats: false as soon as one side is a NaN.\<close>

fun fle :: "pyfloat \<Rightarrow> pyfloat \<Rightarrow> bool" where
  "fle NaN b = False"
| "fle a NaN = False"
| "fle NegInf b = True"
| "fle a PosInf = True"
| "fle PosInf b = False"
| "fle a NegInf = False"
| "fle a b = (fval a \<le> fval b)"

text \<open>\<open>abs(a)\<close>\<close>

fun fabs :: "pyfloat \<Rightarrow> pyfloat" where
  "fabs (Finite r) = Finite \<bar>r\<bar>"
| "fabs NegZero = Finite 0"
| "fabs PosInf = PosInf"
| "fabs NegInf = PosInf"
| "fabs NaN = NaN"

text \<open>\<open>a - b\<close>\<close>

fun fsub :: "pyfloat \<Rightarrow> pyfloat \<Rightarrow> pyfloat" where
  "fsub NaN b = NaN"
| "fsub a NaN = NaN"
| "fsub PosInf PosInf = NaN"
| "fsub NegInf NegInf = NaN"
| "fsub PosInf b = PosInf"
| "fsub NegInf b = NegInf"
| "fsub a PosInf = NegInf"
| "fsub a NegInf = PosInf"
| "fsub NegZero NegZero = Finite 0"
| "fsub NegZero (Finite b) = (if b = 0 then NegZero else Finite (- b))"
| "fsub (Finite a) NegZero = Finite a"
| "fsub (Finite a) (Finite b) = to_double (a - b)"

text \<open>\<open>a * b\<close>\<close>

definition fmul :: "pyfloat \<Rightarrow> pyfloat \<Rightarrow> pyfloat" where
  "fmul a b =
     (let neg = (fneg_sign a \<noteq> fneg_sign b)
      in if a = NaN \<or> b = NaN then NaN
         else if \<not> is_finite a \<or> \<not> is_finite b
         then (if (is_finite a \<and> fval a = 0) \<or> (is_finite b \<and> fval b = 0) then NaN
               else if neg then NegInf else PosInf)
         else if fval a * fval b = 0 then (if neg then NegZero else Finite 0)
         else to_double (fval a * fval b))"

text \<open>
  \<open>float(n)\<close> of an \<open>int\<close>, as the mixed product \<open>n * x\<close> converts its left operand:
  rounded to the nearest float. (Python raises OverflowError from \<open>2^1024\<close> on; the
  only integers converted here are list lengths, which stay below \<open>2^63\<close>.)
\<close>

definition float_of_int :: "int \<Rightarrow> pyfloat" where
  "float_of_int n = to_double (of_int n)"

text \<open>\<open>n >= x\<close> of an \<open>int\<close> and a float: Python compares the exact values.\<close>

definition int_ge :: "int \<Rightarrow> pyfloat \<Rightarrow> bool" where
  "int_ge n x = fle x (Finite (of_int n))"

subsection \<open>\<open>float(s)\<close> of a string\<close>

text \<open>
  The grammar \<open>float\<close> accepts, after whitespace is stripped at both ends: an optional
  sign, then \<open>inf\<close>, \<open>infinity\<close> or \<open>nan\<close> in any case, or a decimal number with an
  optional exponent; single underscores may stand between two digits. \<open>None\<close> is
  Python's ValueError. The decimal value is rounded correctly.
\<close>

definition digit_val :: "char \<Rightarrow> int" where
  "digit_val c = of_char c - 48"

definition digits_val :: "string \<Rightarrow> int" where
  "digits_val ds = foldl (\<lambda>a c. 10 * a + digit_val c) 0 ds"

fun underscores_ok :: "char \<Rightarrow> string \<Rightarrow> bool" where
  "underscores_ok prev [] = (prev \<noteq> CHR ''_'')"
| "underscores_ok prev (c # cs) =
     ((if c = CHR ''_'' then is_digit prev else prev = CHR ''_'' \<longrightarrow> is_digit c)
      \<and> underscores_ok c cs)"

definition take_sign :: "string \<Rightarrow> bool \<times> string" where
  "take_sign s =
     (case s of
        [] \<Rightarrow> (False, s)
      | c # cs \<Rightarrow> if c = CHR ''-'' then (True, cs)
                 else if c = CHR ''+'' then (False, cs) else (False, s))"

definition pow10 :: "int \<Rightarrow> rat" where
  "pow10 e = (if 0 \<le> e then 10 ^ nat e else 1 / 10 ^ nat (- e))"

text \<open>The exponent part: \<open>e\<close> or \<open>E\<close>, an optional sign, at least one digit.\<close>

definition parse_exponent :: "string \<Rightarrow> int option" where
  "parse_exponent s =
     (case s of
        [] \<Rightarrow> Some 0
      | c # cs \<Rightarrow>
          if c = CHR ''e'' \<or> c = CHR ''E''
          then (let (neg, ds) = take_sign cs
                in if ds \<noteq> [] \<and> list_all is_digit ds
                   then Some (if neg then - digits_val ds else digits_val ds)
                   else None)
          else None)"

text \<open>The unsigned decimal number, which must use up the whole string.\<close>

definition parse_number :: "string \<Rightarrow> rat option" where
  "parse_number s =
     (let ip = takeWhile is_digit s; r1 = dropWhile is_digit s;
          (fp, r2) = (case r1 of
                        [] \<Rightarrow> ([], r1)
                      | c # t \<Rightarrow> if c = CHR ''.''
                                then (takeWhile is_digit t, dropWhile is_digit t)
                                else ([], r1))
      in if ip = [] \<and> fp = [] then None
         else case parse_exponent r2 of
                None \<Rightarrow> None
              | Some e \<Rightarrow> Some (of_int (digits_val (ip @ fp)) * pow10 (e - int (length fp))))"

definition py_float :: "string \<Rightarrow> pyfloat option" where
  "py_float s =
     (if \<not> underscores_ok (CHR 0x00) s then None
      else let (neg, u) = take_sign (strip (filter (\<lambda>c. c \<noteq> CHR ''_'') s))
           in if lower u = ''inf'' \<or> lower u = ''infinity''
              then Some (if neg then NegInf else PosInf)
              else if lower u = ''nan'' then Some NaN
              else case parse_number u of
                     None \<Rightarrow> None
                   | Some x \<Rightarrow>
                       Some (if x = 0 then (if neg then NegZero else Finite 0)
                             else to_double (if neg then - x else x)))"

text \<open>The literal \<open>0.7\<close> of the source.\<close>

definition c07 :: pyfloat where
  "c07 = to_double (7 / 10)"

section \<open>Regular expressions\<close>

text \<open>
  \<open>re.findall(p, s)\<close>: the matches of \<open>p\<close> from left to right, without overlap. A
  pattern is a function that matches at the start of a string and returns what
  \<open>findall\<close> reports (the groups) with the text left after the match. The scan tries
  each position in turn; after a match it resumes where the match ended, which the
  counter of characters still to skip records. None of the patterns of this program
  matches the empty string.
\<close>

fun findall :: "(string \<Rightarrow> ('a \<times> string) option) \<Rightarrow> nat \<Rightarrow> string \<Rightarrow> 'a list" where
  "findall p k [] = []"
| "findall p (Suc k) (c # cs) = findall p k cs"
| "findall p 0 (c # cs) =
     (case p (c # cs) of
        None \<Rightarrow> findall p 0 cs
      | Some (g, rest) \<Rightarrow> g # findall p (length cs - length rest) cs)"

text \<open>
  The group \<open>(\d+\.?\d*)\<close>. Every quantifier is greedy, and the characters that may
  follow (a point, whitespace, a percent sign, a letter of a unit) are no digits, so a
  shorter choice never lets the rest of a pattern match where the longest does not.
\<close>

definition number_re :: "string \<Rightarrow> (string \<times> string) option" where
  "number_re s =
     (let ds = takeWhile is_digit s; r = dropWhile is_digit s
      in if ds = [] then None
         else case r of
                [] \<Rightarrow> Some (ds, r)
              | c # t \<Rightarrow> if c = CHR ''.''
                         then Some (ds @ ''.'' @ takeWhile is_digit t, dropWhile is_digit t)
                         else Some (ds, r))"

text \<open>\<open>(\d+\.?\d*)\s*%\<close>\<close>

definition percent_re :: "string \<Rightarrow> (string \<times> string) option" where
  "percent_re s =
     (case number_re s of
        None \<Rightarrow> None
      | Some (g, r) \<Rightarrow>
          (case dropWhile is_space r of
             [] \<Rightarrow> None
           | c # rest \<Rightarrow> if c = CHR ''%'' then Some (g, rest) else None))"

text \<open>The unit groups \<open>(ml|mL)\<close>, \<open>(fl\s*oz|oz)\<close> and \<open>(l|L)\<close>.\<close>

definition literal_re :: "string \<Rightarrow> string \<Rightarrow> (string \<times> string) option" where
  "literal_re lit s = (if prefix lit s then Some (lit, drop (length lit) s) else None)"

definition alt_re ::
  "(string \<Rightarrow> (string \<times> string) option) \<Rightarrow> (string \<Rightarrow> (string \<times> string) option)
     \<Rightarrow> string \<Rightarrow> (string \<times> string) option" where
  "alt_re p q s = (case p s of None \<Rightarrow> q s | Some r \<Rightarrow> Some r)"

definition fl_oz_re :: "string \<Rightarrow> (string \<times> string) option" where
  "fl_oz_re s =
     (case literal_re ''fl'' s of
        None \<Rightarrow> None
      | Some (f, r) \<Rightarrow>
          (case literal_re ''oz'' (dropWhile is_space r) of
             None \<Rightarrow> None
           | Some (z, rest) \<Rightarrow> Some (f @ takeWhile is_space r @ z, rest)))"

definition unit_ml :: "string \<Rightarrow> (string \<times> string) option" where
  "unit_ml = alt_re (literal_re ''ml'') (literal_re ''mL'')"

definition unit_oz :: "string \<Rightarrow> (string \<times> string) option" where
  "unit_oz = alt_re fl_oz_re (literal_re ''oz'')"

definition unit_l :: "string \<Rightarrow> (string \<times> string) option" where
  "unit_l = alt_re (literal_re ''l'') (literal_re ''L'')"

text \<open>\<open>(\d+\.?\d*)\s*(unit)\<close>: \<open>findall\<close> reports the pair of the two groups.\<close>

definition volume_re ::
  "(string \<Rightarrow> (string \<times> string) option) \<Rightarrow> string \<Rightarrow> ((string \<times> string) \<times> string) option" where
  "volume_re unit s =
     (case number_re s of
        None \<Rightarrow> None
      | Some (g, r) \<Rightarrow>
          (case unit (dropWhile is_space r) of
             None \<Rightarrow> None
           | Some (u, rest) \<Rightarrow> Some ((g, u), rest)))"

section \<open>The extractors\<close>

text \<open>
  \<^verbatim>\<open>
  def find_percentage(text):
      matches = re.findall(r'(\d+\.?\d*)\s*%', text.lower())
      percentages = []
      for match in matches:
          try:
              val = float(match)
              if 0 <= val <= 100:  # reasonable range
                  percentages.append(val)
          except:
              pass
      return percentages
  \<close>
\<close>

definition in_range :: "pyfloat \<Rightarrow> bool" where
  "in_range val = (fle (Finite 0) val \<and> fle val (Finite 100))"

primrec percentages_of :: "string list \<Rightarrow> pyfloat list" where
  "percentages_of [] = []"
| "percentages_of (match # matches) =
     (case py_float match of
        None \<Rightarrow> percentages_of matches
      | Some val \<Rightarrow> if in_range val then val # percentages_of matches
                    else percentages_of matches)"

definition find_percentage :: "string \<Rightarrow> pyfloat list" where
  "find_percentage text = percentages_of (findall percent_re 0 (lower text))"

text \<open>
  \<^verbatim>\<open>
  def find_volume(text):
      patterns = [
          r'(\d+\.?\d*)\s*(ml|mL)',
          r'(\d+\.?\d*)\s*(fl\s*oz|oz)',
          r'(\d+\.?\d*)\s*(l|L)',
      ]
      volumes = []
      for pattern in patterns:
          matches = re.findall(pattern, text.lower())
          for match in matches:
              if isinstance(match, tuple):
                  volumes.append(f"{match[0]} {match[1]}".strip())
      return volumes
  \<close>
\<close>

definition patterns :: "(string \<Rightarrow> ((string \<times> string) \<times> string) option) list" where
  "patterns = [volume_re unit_ml, volume_re unit_oz, volume_re unit_l]"

definition find_volume :: "string \<Rightarrow> string list" where
  "find_volume text =
     concat (map (\<lambda>pattern. map (\<lambda>(m0, m1). strip (m0 @ '' '' @ m1))
                                (findall pattern 0 (lower text)))
                 patterns)"

section \<open>The field matchers\<close>

text \<open>
  \<^verbatim>\<open>
  def check_match(label_text, form_value, field_name):
      if not form_value:
          return False, f"{field_name} not provided in form"
      label_lower = normalize_text(label_text)
      form_lower = normalize_text(form_value)
      if form_lower in label_lower:
          return True, f"{field_name} found on label"
      form_words = form_lower.split()
      if len(form_words) > 1:
          found = sum(1 for word in form_words if word in label_lower)
          if found >= len(form_words) * 0.7:  # 70% of words match
              return True, f"{field_name} partially matched"
      return False, f"{field_name} not found on label"
  \<close>
\<close>

definition words_found :: "string list \<Rightarrow> string \<Rightarrow> nat" where
  "words_found form_words label_lower =
     length (filter (\<lambda>word. str_in word label_lower) form_words)"

definition check_match :: "string \<Rightarrow> string \<Rightarrow> string \<Rightarrow> bool \<times> string" where
  "check_match label_text form_value field_name =
     (if form_value = [] then (False, field_name @ '' not provided in form'')
      else let label_lower = normalize_text label_text;
               form_lower = normalize_text form_value
           in if str_in form_lower label_lower
              then (True, field_name @ '' found on label'')
              else let form_words = split form_lower
                   in if length form_words > 1 \<and>
                         int_ge (int (words_found form_words label_lower))
                                (fmul (float_of_int (int (length form_words))) c07)
                      then (True, field_name @ '' partially matched'')
                      else (False, field_name @ '' not found on label''))"

text \<open>
  \<^verbatim>\<open>
  def check_alcohol(label_text, form_abv):
      if not form_abv:
          return False, "Alcohol content not provided"
      try:
          form_value = float(re.sub(r'[%\s]', '', form_abv))
      except:
          return False, f"Invalid alcohol content: {form_abv}"
      label_percentages = find_percentage(label_text)
      if not label_percentages:
          return False, f"Alcohol content not found on label (expected {form_value}%)"
      for label_val in label_percentages:
          if abs(label_val - form_value) <= 0.5:
              return True, f"Alcohol content matches: {label_val}%"
      return False, f"Alcohol content mismatch: found {label_percentages[0]}%, expected {form_value}%"
  \<close>
  The text an f-string prints for a float (its \<open>repr\<close>) is the parameter \<open>fmt\<close>.
\<close>

definition within_tolerance :: "pyfloat \<Rightarrow> pyfloat \<Rightarrow> bool" where
  "within_tolerance label_val form_value =
     fle (fabs (fsub label_val form_value)) (Finite (1 / 2))"

definition check_alcohol :: "(pyfloat \<Rightarrow> string) \<Rightarrow> string \<Rightarrow> string \<Rightarrow> bool \<times> string" where
  "check_alcohol fmt label_text form_abv =
     (if form_abv = [] then (False, ''Alcohol content not provided'')
      else case py_float (filter (\<lambda>c. c \<noteq> CHR ''%'' \<and> \<not> is_space c) form_abv) of
             None \<Rightarrow> (False, ''Invalid alcohol content: '' @ form_abv)
           | Some form_value \<Rightarrow>
               (case find_percentage label_text of
                  [] \<Rightarrow> (False, ''Alcohol content not found on label (expected ''
                                 @ fmt form_value @ ''%)'')
                | first # others \<Rightarrow>
                    (case find (\<lambda>label_val. within_tolerance label_val form_value)
                               (first # others) of
                       Some label_val \<Rightarrow>
                         (True, ''Alcohol content matches: '' @ fmt label_val @ ''%'')
                     | None \<Rightarrow>
                         (False, ''Alcohol content mismatch: found '' @ fmt first
                                 @ ''%, expected '' @ fmt form_value @ ''%''))))"

text \<open>
  \<^verbatim>\<open>
  def check_volume(label_text, form_volume):
      if not form_volume:
          return True, "Net contents not required"  # optional field
      label_volumes = find_volume(label_text)
      if not label_volumes:
          return False, f"Net contents not found on label (expected {form_volume})"
      form_lower = normalize_text(form_volume)
      for label_vol in label_volumes:
          if form_lower in normalize_text(label_vol) or normalize_text(label_vol) in form_lower:
              return True, f"Net contents matches: {label_vol}"
      return False, f"Net contents mismatch: found {label_volumes[0]}, expected {form_volume}"
  \<close>
\<close>

definition volume_agrees :: "string \<Rightarrow> string \<Rightarrow> bool" where
  "volume_agrees form_lower label_vol =
     (str_in form_lower (normalize_text label_vol)
      \<or> str_in (normalize_text label_vol) form_lower)"

definition check_volume :: "string \<Rightarrow> string \<Rightarrow> bool \<times> string" where
  "check_volume label_text form_volume =
     (if form_volume = [] then (True, ''Net contents not required'')
      else case find_volume label_text of
             [] \<Rightarrow> (False, ''Net contents not found on label (expected ''
                            @ form_volume @ '')'')
           | first # others \<Rightarrow>
               (let form_lower = normalize_text form_volume
                in case find (volume_agrees form_lower) (first # others) of
                     Some label_vol \<Rightarrow> (True, ''Net contents matches: '' @ label_vol)
                   | None \<Rightarrow>
                       (False, ''Net contents mismatch: found '' @ first
                               @ '', expected '' @ form_volume)))"

text \<open>
  \<^verbatim>\<open>
  def check_warning(label_text):
      text_lower = normalize_text(label_text)
      if "government warning" in text_lower:
          return True, "Government warning found on label"
      phrases = ["pregnant", "driving", "operating machinery", "health problems"]
      found = [p for p in phrases if p in text_lower]
      if len(found) >= 2:
          return True, "Government warning partially found"
      return False, "Government warning not found on label"
  \<close>
\<close>

definition phrases :: "string list" where
  "phrases = [''pregnant'', ''driving'', ''operating machinery'', ''health problems'']"

definition check_warning :: "string \<Rightarrow> bool \<times> string" where
  "check_warning label_text =
     (let text_lower = normalize_text label_text
      in if str_in ''government warning'' text_lower
         then (True, ''Government warning found on label'')
         else let found = filter (\<lambda>p. str_in p text_lower) phrases
              in if length found \<ge> 2
                 then (True, ''Government warning partially found'')
                 else (False, ''Government warning not found on label''))"

section \<open>The orchestrator\<close>

text \<open>
  The request carries the form fields (a dictionary) and the uploaded files; the image
  library and the OCR engine are parameters, each either raising (with the text of the
  exception) or returning. The response is the JSON body with the HTTP status.
\<close>

record upload =
  filename :: string
  content :: string

datatype 'a outcome = Raised string | Returned 'a

record check_result =
  field :: string
  matched :: bool
  message :: string

record results =
  overall_match :: bool
  extracted_text_preview :: string
  checks :: "check_result list"

datatype body = Error string "string option" | Results results

type_synonym response = "body \<times> nat"

text \<open>\<open>d.get(key, default)\<close>, and the truth value of \<open>d.get(key)\<close>.\<close>

definition get :: "(string \<rightharpoonup> string) \<Rightarrow> string \<Rightarrow> string \<Rightarrow> string" where
  "get d key dflt = (case d key of None \<Rightarrow> dflt | Some v \<Rightarrow> v)"

definition provided :: "(string \<rightharpoonup> string) \<Rightarrow> string \<Rightarrow> bool" where
  "provided d key = (case d key of None \<Rightarrow> False | Some v \<Rightarrow> v \<noteq> [])"

text \<open>
  One check of the run: its result is appended to \<open>checks\<close>, and a failed one clears
  \<open>overall_match\<close>.
  \<^verbatim>\<open>
  results['checks'].append({'field': name, 'matched': m, 'message': msg})
  if not m:
      results['overall_match'] = False
  \<close>
\<close>

definition add_check :: "string \<Rightarrow> bool \<times> string \<Rightarrow> results \<Rightarrow> results" where
  "add_check name r res =
     (let res' = res\<lparr>checks := checks res
                   @ [\<lparr>field = name, matched = fst r, message = snd r\<rparr>]\<rparr>
      in if \<not> fst r then res'\<lparr>overall_match := False\<rparr> else res')"

text \<open>
  \<^verbatim>\<open>
  results = {
      'overall_match': True,
      'extracted_text_preview': extracted_text[:200] + '...' if len(extracted_text) > 200 else extracted_text,
      'checks': []
  }
  brand_match, brand_msg = check_match(extracted_text, form_data.get('brandName', ''), 'Brand Name')
  ...
  class_match, class_msg = check_match(extracted_text, form_data.get('productClass', ''), 'Product Class/Type')
  ...
  abv_match, abv_msg = check_alcohol(extracted_text, form_data.get('alcoholContent', ''))
  ...
  if form_data.get('netContents'):
      vol_match, vol_msg = check_volume(extracted_text, form_data.get('netContents', ''))
      ...
  warning_match, warning_msg = check_warning(extracted_text)
  ...
  return jsonify(results), 200
  \<close>
\<close>

definition run_checks :: "(pyfloat \<Rightarrow> string) \<Rightarrow> string \<Rightarrow> (string \<rightharpoonup> string) \<Rightarrow> results" where
  "run_checks fmt extracted_text form_data =
     (let r0 = \<lparr>overall_match = True,
                extracted_text_preview =
                  (if length extracted_text > 200 then take 200 extracted_text @ ''...''
                   else extracted_text),
                checks = []\<rparr>;
          r1 = add_check ''Brand Name''
                 (check_match extracted_text (get form_data ''brandName'' []) ''Brand Name'') r0;
          r2 = add_check ''Product Class/Type''
                 (check_match extracted_text (get form_data ''productClass'' [])
                    ''Product Class/Type'') r1;
          r3 = add_check ''Alcohol Content''
                 (check_alcohol fmt extracted_text (get form_data ''alcoholContent'' [])) r2;
          r4 = (if provided form_data ''netContents''
                then add_check ''Net Contents''
                       (check_volume extracted_text (get form_data ''netContents'' [])) r3
                else r3)
      in add_check ''Government Warning'' (check_warning extracted_text) r4)"

text \<open>
  \<^verbatim>\<open>
  def verify_label():
      try:
          form_data = request.form.to_dict()
          if 'image' not in request.files:
              return jsonify({'error': 'No image file provided'}), 400
          image_file = request.files['image']
          if image_file.filename == '':
              return jsonify({'error': 'No image file selected'}), 400
          image = Image.open(io.BytesIO(image_file.read()))
          try:
              extracted_text = pytesseract.image_to_string(image)
          except Exception as e:
              return jsonify({'error': 'Failed to process image', 'details': str(e)}), 500
          if not extracted_text or len(extracted_text.strip()) < 10:
              return jsonify({
                  'error': 'Could not read text from image. Please try a clearer image.'
              }), 400
          ...
      except Exception as e:
          return jsonify({'error': 'An error occurred', 'details': str(e)}), 500
  \<close>
\<close>

definition verify_label ::
  "(pyfloat \<Rightarrow> string) \<Rightarrow> (string \<Rightarrow> 'img outcome) \<Rightarrow> ('img \<Rightarrow> string outcome)
     \<Rightarrow> (string \<rightharpoonup> string) \<Rightarrow> (string \<rightharpoonup> upload) \<Rightarrow> response" where
  "verify_label fmt image_open image_to_string form_data files =
     (case files ''image'' of
        None \<Rightarrow> (Error ''No image file provided'' None, 400)
      | Some image_file \<Rightarrow>
          if filename image_file = [] then (Error ''No image file selected'' None, 400)
          else case image_open (content image_file) of
                 Raised e \<Rightarrow> (Error ''An error occurred'' (Some e), 500)
               | Returned img \<Rightarrow>
                   (case image_to_string img of
                      Raised e \<Rightarrow> (Error ''Failed to process image'' (Some e), 500)
                    | Returned extracted_text \<Rightarrow>
                        if extracted_text = [] \<or> length (strip extracted_text) < 10
                        then (Error ''Could not read text from image. Please try a clearer image.''
                                None, 400)
                        else (Results (run_checks fmt extracted_text form_data), 200)))"

section \<open>Notions of the specification\<close>

text \<open>
  A normalized string, in the specification's words: lowercase, no leading or trailing
  whitespace, and single internal spaces (every whitespace character is a space, and
  the character after it is no whitespace).
\<close>

fun single_spaces :: "string \<Rightarrow> bool" where
  "single_spaces [] = True"
| "single_spaces [a] = (is_space a \<longrightarrow> a = CHR '' '')"
| "single_spaces (a # b # cs) =
     ((is_space a \<longrightarrow> a = CHR '' '' \<and> \<not> is_space b) \<and> single_spaces (b # cs))"

definition normalized :: "string \<Rightarrow> bool" where
  "normalized s = (lower s = s \<and> strip s = s \<and> single_spaces s)"

text \<open>
  The matches of a pattern with the position where each starts: the scan of
  \<open>findall\<close> again, counting the characters passed.
\<close>

fun occurrences ::
  "(string \<Rightarrow> ('a \<times> string) option) \<Rightarrow> nat \<Rightarrow> nat \<Rightarrow> string \<Rightarrow> (nat \<times> 'a) list" where
  "occurrences p i k [] = []"
| "occurrences p i (Suc k) (c # cs) = occurrences p (Suc i) k cs"
| "occurrences p i 0 (c # cs) =
     (case p (c # cs) of
        None \<Rightarrow> occurrences p (Suc i) 0 cs
      | Some (g, rest) \<Rightarrow> (i, g) # occurrences p (Suc i) (length cs - length rest) cs)"

section \<open>Properties of the string operations\<close>

lemma str_in_sublist: "str_in a b \<longleftrightarrow> sublist a b"
  by (induction b) (auto simp: sublist_Cons_right)

lemma str_in_Nil [simp]: "str_in [] b"
  by (simp add: str_in_sublist)

lemma is_space_lower_char [simp]: "is_space (lower_char c) = is_space c"
  by (auto simp: is_space_def lower_char_def Let_def)

lemma lower_char_idem [simp]: "lower_char (lower_char c) = lower_char c"
  by (auto simp: lower_char_def Let_def)

lemma lower_char_space [simp]: "lower_char CHR '' '' = CHR '' ''"
  by (simp add: lower_char_def)

lemma is_space_space [simp]: "is_space CHR '' ''"
  by (simp add: is_space_def)

lemma lower_idem [simp]: "lower (lower s) = lower s"
  by (simp add: lower_def)

lemma lower_dropWhile: "lower (dropWhile is_space s) = dropWhile is_space (lower s)"
  by (simp add: lower_def dropWhile_map comp_def)

lemma lower_strip: "lower (strip s) = strip (lower s)"
  by (simp add: strip_def lstrip_def rstrip_def lower_dropWhile)
     (simp add: lower_def rev_map dropWhile_map comp_def)

lemma lower_sub_spaces: "lower (sub_spaces s) = sub_spaces (lower s)"
proof (induction s rule: sub_spaces.induct)
  case 1
  then show ?case by (simp add: lower_def)
next
  case (2 c cs)
  then show ?case
    using lower_dropWhile [of cs] by (simp add: lower_def)
qed


lemma rstrip_Nil [simp]: "rstrip [] = []"
  by (simp add: rstrip_def)

lemma rstrip_Cons: "\<not> is_space c \<Longrightarrow> rstrip (c # cs) = c # rstrip cs"
  by (simp add: rstrip_def dropWhile_append)

lemma rstrip_last: "rstrip s \<noteq> [] \<Longrightarrow> \<not> is_space (last (rstrip s))"
  unfolding rstrip_def using hd_dropWhile [of is_space "rev s"]
  by (simp add: last_rev)

lemma strip_fixed_iff: "strip s = s \<longleftrightarrow> s = [] \<or> (\<not> is_space (hd s) \<and> \<not> is_space (last s))"
proof (cases s)
  case Nil
  then show ?thesis by (simp add: strip_def lstrip_def)
next
  case (Cons c cs)
  show ?thesis
  proof
    assume eq: "strip s = s"
    have "lstrip s \<noteq> []" using eq Cons by (auto simp: strip_def)
    then have "\<not> is_space (hd (lstrip s))"
      unfolding lstrip_def by (rule hd_dropWhile)
    moreover have "hd (strip s) = hd (lstrip s)"
      using \<open>lstrip s \<noteq> []\<close> \<open>\<not> is_space (hd (lstrip s))\<close>
      by (cases "lstrip s") (auto simp: strip_def rstrip_Cons)
    moreover have "\<not> is_space (last (strip s))"
      using eq Cons rstrip_last [of "lstrip s"] by (simp add: strip_def)
    ultimately show "s = [] \<or> (\<not> is_space (hd s) \<and> \<not> is_space (last s))"
      using eq by simp
  next
    assume "s = [] \<or> (\<not> is_space (hd s) \<and> \<not> is_space (last s))"
    then have h: "\<not> is_space c" and l: "\<not> is_space (last s)" using Cons by auto
    have "lstrip s = s" using h Cons by (simp add: lstrip_def)
    moreover have "rstrip s = s"
    proof -
      have "hd (rev s) = last s" by (rule hd_rev)
      then have "dropWhile is_space (rev s) = rev s"
        using l by (simp only: dropWhile_eq_self_iff) simp
      then show ?thesis by (simp add: rstrip_def)
    qed
    ultimately show "strip s = s" by (simp add: strip_def)
  qed
qed

lemma strip_strip [simp]: "strip (strip s) = strip s"
proof (cases "strip s = []")
  case True
  then show ?thesis by (simp add: strip_def lstrip_def)
next
  case False
  have l: "lstrip s \<noteq> []" using False by (auto simp: strip_def)
  then have h: "\<not> is_space (hd (lstrip s))"
    unfolding lstrip_def by (rule hd_dropWhile)
  have "hd (strip s) = hd (lstrip s)"
    using l h by (cases "lstrip s") (auto simp: strip_def rstrip_Cons)
  moreover have "\<not> is_space (last (strip s))"
    using False rstrip_last [of "lstrip s"] by (simp add: strip_def)
  ultimately show ?thesis using h by (simp add: strip_fixed_iff)
qed

lemma sub_spaces_eq_Nil [simp]: "sub_spaces s = [] \<longleftrightarrow> s = []"
  by (cases s) auto

lemma hd_sub_spaces: "s \<noteq> [] \<Longrightarrow> is_space (hd (sub_spaces s)) = is_space (hd s)"
  by (cases s) auto

lemma last_sub_spaces: "s \<noteq> [] \<Longrightarrow> is_space (last (sub_spaces s)) = is_space (last s)"
proof (induction s rule: sub_spaces.induct)
  case 1
  then show ?case by simp
next
  case (2 c cs)
  show ?case
  proof (cases "is_space c")
    case True
    show ?thesis
    proof (cases "dropWhile is_space cs = []")
      case d: True
      then have "\<forall>x\<in>set cs. is_space x" by (simp add: dropWhile_eq_Nil_conv)
      then have "is_space (last (c # cs))" using True by (cases cs) auto
      then show ?thesis using True d by simp
    next
      case d: False
      have "last (dropWhile is_space cs) = last cs"
        using d by (metis last_appendR takeWhile_dropWhile_id)
      moreover have "cs \<noteq> []" using d by auto
      ultimately show ?thesis using True d 2 by simp
    qed
  next
    case False
    then show ?thesis using 2 by (cases cs) auto
  qed
qed

lemma strip_sub_spaces: "strip s = s \<Longrightarrow> strip (sub_spaces s) = sub_spaces s"
  by (cases "s = []") (auto simp: strip_fixed_iff hd_sub_spaces last_sub_spaces)

lemma single_spaces_Cons: "\<not> is_space c \<Longrightarrow> single_spaces (c # t) = single_spaces t"
  by (cases t) auto

lemma single_spaces_sub_spaces: "single_spaces (sub_spaces s)"
proof (induction s rule: sub_spaces.induct)
  case 1
  then show ?case by simp
next
  case (2 c cs)
  show ?case
  proof (cases "is_space c")
    case True
    show ?thesis
    proof (cases "dropWhile is_space cs")
      case Nil
      then show ?thesis using True by (simp del: dropWhile_eq_Nil_conv)
    next
      case (Cons x d)
      then have "\<not> is_space x" using hd_dropWhile [of is_space cs] by auto
      then show ?thesis using True Cons 2 by simp
    qed
  next
    case False
    then show ?thesis using 2 by (simp add: single_spaces_Cons)
  qed
qed

lemma sub_spaces_fixed: "single_spaces s \<Longrightarrow> sub_spaces s = s"
proof (induction s rule: single_spaces.induct)
  case 1
  then show ?case by simp
next
  case (2 a)
  then show ?case by auto
next
  case (3 a b cs)
  then show ?case by auto
qed

lemma normalize_text_fixed: "normalized s \<Longrightarrow> normalize_text s = s"
  by (simp add: normalized_def normalize_text_def sub_spaces_fixed)

lemma normalized_Nil: "normalized []"
  by (simp add: normalized_def lower_def strip_def lstrip_def)

lemma normalized_normalize_text: "normalized (normalize_text x)"
proof (cases "x = []")
  case True
  then show ?thesis by (simp add: normalize_text_def normalized_Nil)
next
  case False
  let ?t = "sub_spaces (strip (lower x))"
  have "lower ?t = ?t" by (simp add: lower_sub_spaces lower_strip)
  moreover have "strip ?t = ?t" by (simp add: strip_sub_spaces)
  moreover have "single_spaces ?t" by (rule single_spaces_sub_spaces)
  ultimately show ?thesis using False by (simp add: normalize_text_def normalized_def)
qed

section \<open>Substrings of a normalized text, loops that stop at the first match\<close>

lemma sub_spaces_append_left:
  "p \<noteq> [] \<Longrightarrow> \<not> is_space (hd p) \<Longrightarrow> sub_spaces (a @ p) = sub_spaces a @ sub_spaces p"
proof (induction a rule: sub_spaces.induct)
  case 1
  then show ?case by simp
next
  case (2 c cs)
  have d: "dropWhile is_space (cs @ p) = dropWhile is_space cs @ p"
    using 2(3,4) by (cases p) (auto simp: dropWhile_append)
  show ?case using 2 d by simp
qed

lemma sub_spaces_append_right:
  "p \<noteq> [] \<Longrightarrow> \<not> is_space (last p) \<Longrightarrow> sub_spaces (p @ b) = sub_spaces p @ sub_spaces b"
proof (induction p rule: sub_spaces.induct)
  case 1
  then show ?case by simp
next
  case (2 c cs)
  show ?case
  proof (cases "cs = []")
    case True
    then show ?thesis using 2(4) by simp
  next
    case False
    then have l: "\<not> is_space (last cs)" and m: "last cs \<in> set cs" using 2(4) by auto
    then have n: "dropWhile is_space cs \<noteq> []" by auto
    have d: "dropWhile is_space (cs @ b) = dropWhile is_space cs @ b"
      using l m by (simp add: dropWhile_append1)
    have "last (dropWhile is_space cs) = last cs"
      using n by (metis last_appendR takeWhile_dropWhile_id)
    then show ?thesis using 2 False l n d by simp
  qed
qed

lemma strip_around:
  assumes "p \<noteq> []" "\<not> is_space (hd p)" "\<not> is_space (last p)"
  shows "strip (a @ p @ b) = lstrip a @ p @ rstrip b"
proof -
  have 1: "lstrip (a @ p @ b) = lstrip a @ p @ b"
    using assms(1,2) by (cases p) (auto simp: lstrip_def dropWhile_append)
  have "dropWhile is_space (rev b @ rev p @ rev (lstrip a))
          = dropWhile is_space (rev b) @ rev p @ rev (lstrip a)"
    using assms(1,3) by (cases "rev p") (auto simp: dropWhile_append last_rev hd_rev)
  then have "rstrip (lstrip a @ p @ b) = lstrip a @ p @ rstrip b"
    by (simp add: rstrip_def)
  then show ?thesis using 1 by (simp add: strip_def)
qed

lemma str_in_normalize_text:
  assumes "p \<noteq> []" "normalized p" "str_in p (lower text)"
  shows "str_in p (normalize_text text)"
proof -
  from assms(3) obtain a b where ab: "lower text = a @ p @ b"
    by (auto simp: str_in_sublist sublist_def)
  have hl: "\<not> is_space (hd p)" "\<not> is_space (last p)"
    using assms(1,2) by (auto simp: normalized_def strip_fixed_iff)
  have sp: "sub_spaces p = p"
    using assms(2) by (simp add: normalized_def sub_spaces_fixed)
  have "text \<noteq> []" using ab assms(1) by (auto simp: lower_def)
  then have "normalize_text text = sub_spaces (lstrip a @ p @ rstrip b)"
    using ab strip_around [OF assms(1) hl] by (simp add: normalize_text_def)
  also have "\<dots> = sub_spaces (lstrip a) @ sub_spaces (p @ rstrip b)"
    using sub_spaces_append_left [of "p @ rstrip b" "lstrip a"] assms(1) hl by simp
  also have "\<dots> = sub_spaces (lstrip a) @ p @ sub_spaces (rstrip b)"
    using sub_spaces_append_right [OF assms(1) hl(2)] sp by simp
  finally show ?thesis by (simp add: str_in_sublist)
qed

lemma phrases_count:
  "length (filter P phrases)
     = card {p \<in> {''pregnant'', ''driving'', ''operating machinery'', ''health problems''}. P p}"
proof -
  have "distinct phrases" by (simp add: phrases_def)
  then have "length (filter P phrases) = card ({p. P p} \<inter> set phrases)"
    by (rule distinct_length_filter)
  also have "{p. P p} \<inter> set phrases
       = {p \<in> {''pregnant'', ''driving'', ''operating machinery'', ''health problems''}. P p}"
    by (auto simp: phrases_def)
  finally show ?thesis .
qed

lemma lower_all_space: "\<forall>c\<in>set s. is_space c \<Longrightarrow> \<forall>c\<in>set (lower s). is_space c"
  by (simp add: lower_def)

lemma strip_all_space: "\<forall>c\<in>set s. is_space c \<Longrightarrow> strip s = []"
  by (simp add: strip_def lstrip_def dropWhile_eq_Nil_conv [THEN iffD2])

lemma normalize_text_all_space: "\<forall>c\<in>set s. is_space c \<Longrightarrow> normalize_text s = []"
  by (simp add: normalize_text_def strip_all_space lower_all_space)

lemma find_SomeD: "find P xs = Some x \<Longrightarrow> P x \<and> x \<in> set xs"
  by (induction xs) (auto split: if_splits)

lemma find_NoneD: "find P xs = None \<Longrightarrow> x \<in> set xs \<Longrightarrow> \<not> P x"
  by (induction xs) (auto split: if_splits)

section \<open>Tokens of a normalized text\<close>

lemma split_Nil [simp]: "split [] = []"
  by (simp add: split.simps)

lemma split_space: "is_space c \<Longrightarrow> split (c # cs) = split cs"
  by (simp add: split.simps [of "c # cs"] split.simps [of cs])

lemma split_word:
  "\<not> is_space c \<Longrightarrow>
     split (c # cs) = (c # takeWhile (\<lambda>x. \<not> is_space x) cs)
                      # split (dropWhile (\<lambda>x. \<not> is_space x) cs)"
  by (simp add: split.simps [of "c # cs"])

lemma split_dropWhile: "split (dropWhile is_space s) = split s"
  by (induction s) (simp_all add: split_space)

lemma takeWhile_append_stop:
  "ys = [] \<or> \<not> P (hd ys) \<Longrightarrow> takeWhile P (xs @ ys) = takeWhile P xs"
  by (induction xs) (auto, cases ys, auto)

lemma dropWhile_append_stop:
  "ys = [] \<or> \<not> P (hd ys) \<Longrightarrow> dropWhile P (xs @ ys) = dropWhile P xs @ ys"
  by (induction xs) (auto, cases ys, auto)

lemma dropWhile_takeWhile_same [simp]: "dropWhile P (takeWhile P xs) = []"
  by (induction xs) auto

lemma split_all_space: "\<forall>c\<in>set w. is_space c \<Longrightarrow> split w = []"
  by (induction w) (simp_all add: split_space)

lemma split_append_spaces: "\<forall>c\<in>set w. is_space c \<Longrightarrow> split (s @ w) = split s"
proof (induction s rule: length_induct)
  case (1 s)
  show ?case
  proof (cases s)
    case Nil
    have "split w = []" using 1(2) by (rule split_all_space)
    then show ?thesis using Nil by simp
  next
    case (Cons c cs)
    show ?thesis
    proof (cases "is_space c")
      case True
      then show ?thesis using 1 Cons by (simp add: split_space)
    next
      case False
      let ?n = "\<lambda>x. \<not> is_space x"
      have w: "w = [] \<or> \<not> ?n (hd w)" using 1(2) by (cases w) auto
      have t: "takeWhile ?n (cs @ w) = takeWhile ?n cs"
        using w by (rule takeWhile_append_stop)
      have "dropWhile ?n (cs @ w) = dropWhile ?n cs @ w"
        using w by (rule dropWhile_append_stop)
      moreover have "length (dropWhile ?n cs) < length s"
        using Cons length_dropWhile_le [of ?n cs] by simp
      ultimately have "split (dropWhile ?n (cs @ w)) = split (dropWhile ?n cs)"
        using 1 by simp
      then show ?thesis using False Cons t by (simp add: split_word)
    qed
  qed
qed

lemma rstrip_decomp: "rstrip s @ rev (takeWhile is_space (rev s)) = s"
proof -
  have "rev (takeWhile is_space (rev s) @ dropWhile is_space (rev s)) = s" by simp
  then show ?thesis unfolding rev_append by (simp add: rstrip_def)
qed

lemma split_rstrip: "split (rstrip s) = split s"
proof -
  have "\<forall>c\<in>set (rev (takeWhile is_space (rev s))). is_space c"
    by (auto dest: set_takeWhileD)
  then have "split (rstrip s @ rev (takeWhile is_space (rev s))) = split (rstrip s)"
    by (rule split_append_spaces)
  then show ?thesis by (simp only: rstrip_decomp)
qed

lemma split_strip: "split (strip s) = split s"
  by (simp add: strip_def lstrip_def split_rstrip split_dropWhile)

lemma sub_spaces_word:
  "sub_spaces s = takeWhile (\<lambda>x. \<not> is_space x) s
                  @ sub_spaces (dropWhile (\<lambda>x. \<not> is_space x) s)"
  by (induction s) auto

lemma split_sub_spaces: "split (sub_spaces s) = split s"
proof (induction s rule: length_induct)
  case (1 s)
  show ?case
  proof (cases s)
    case Nil
    then show ?thesis by simp
  next
    case (Cons c cs)
    show ?thesis
    proof (cases "is_space c")
      case True
      have "length (dropWhile is_space cs) < length s"
        using Cons length_dropWhile_le [of is_space cs] by simp
      then have "split (sub_spaces (dropWhile is_space cs)) = split (dropWhile is_space cs)"
        using 1 by simp
      then show ?thesis using True Cons by (simp add: split_space split_dropWhile)
    next
      case False
      let ?n = "\<lambda>x. \<not> is_space x"
      let ?d = "dropWhile ?n cs"
      have w: "sub_spaces cs = takeWhile ?n cs @ sub_spaces ?d" by (rule sub_spaces_word)
      have d: "?d = [] \<or> is_space (hd ?d)" using hd_dropWhile [of ?n cs] by auto
      then have h: "sub_spaces ?d = [] \<or> is_space (hd (sub_spaces ?d))"
        by (cases ?d) auto
      have h': "sub_spaces ?d = [] \<or> \<not> ?n (hd (sub_spaces ?d))" using h by simp
      have "takeWhile ?n (takeWhile ?n cs @ sub_spaces ?d) = takeWhile ?n cs"
        using takeWhile_append_stop [of "sub_spaces ?d" ?n "takeWhile ?n cs"] h' by simp
      then have t: "takeWhile ?n (sub_spaces cs) = takeWhile ?n cs"
        using w by simp
      have "dropWhile ?n (takeWhile ?n cs @ sub_spaces ?d) = sub_spaces ?d"
        using dropWhile_append_stop [of "sub_spaces ?d" ?n "takeWhile ?n cs"] h' by simp
      then have r: "dropWhile ?n (sub_spaces cs) = sub_spaces ?d"
        using w by simp
      have "length ?d < length s" using Cons length_dropWhile_le [of ?n cs] by simp
      then have "split (sub_spaces ?d) = split ?d" using 1 by simp
      then show ?thesis using False Cons t r by (simp add: split_word)
    qed
  qed
qed

lemma split_lower: "split (lower s) = map lower (split s)"
proof (induction s rule: length_induct)
  case (1 s)
  show ?case
  proof (cases s)
    case Nil
    then show ?thesis by (simp add: lower_def)
  next
    case (Cons c cs)
    show ?thesis
    proof (cases "is_space c")
      case True
      then show ?thesis using 1 Cons by (simp add: split_space lower_def)
    next
      case False
      let ?n = "\<lambda>x. \<not> is_space x"
      have t: "takeWhile ?n (map lower_char cs) = map lower_char (takeWhile ?n cs)"
        by (simp add: takeWhile_map comp_def)
      have d: "dropWhile ?n (map lower_char cs) = map lower_char (dropWhile ?n cs)"
        by (simp add: dropWhile_map comp_def)
      have "length (dropWhile ?n cs) < length s"
        using Cons length_dropWhile_le [of ?n cs] by simp
      then have "split (lower (dropWhile ?n cs)) = map lower (split (dropWhile ?n cs))"
        using 1 by simp
      then show ?thesis using False Cons t d by (simp add: split_word lower_def)
    qed
  qed
qed

lemma split_normalize_text: "split (normalize_text s) = map lower (split s)"
  by (simp add: normalize_text_def split_sub_spaces split_strip split_lower)


section \<open>Rounding to binary64\<close>

lemma pow2_powi: "pow2 e = 2 powi e"
  by (simp add: pow2_def power_int_def field_simps)

lemma pow2_pos [simp]: "0 < pow2 e"
  by (simp add: pow2_powi)

lemma pow2_neq_0 [simp]: "pow2 e \<noteq> 0"
  by (simp add: pow2_powi)

lemma pow2_add: "pow2 (a + b) = pow2 a * pow2 b"
  by (simp add: pow2_powi power_int_add)

lemma pow2_nat: "pow2 (int n) = 2 ^ n"
  by (simp add: pow2_def)

lemma pow2_le_iff [simp]: "pow2 a \<le> pow2 b \<longleftrightarrow> a \<le> b"
  using power_int_increasing [of a b "2::rat"] power_int_strict_increasing [of b a "2::rat"]
  by (auto simp: pow2_powi not_le [symmetric])

lemma pow2_less_iff [simp]: "pow2 a < pow2 b \<longleftrightarrow> a < b"
  using pow2_le_iff [of b a] by (simp add: not_le [symmetric] del: pow2_le_iff)

lemma floor_log2_bounds:
  assumes "0 < x"
  shows "pow2 (floor_log2 x) \<le> x \<and> x < pow2 (floor_log2 x + 1)"
proof -
  obtain p q where pq: "quotient_of x = (p, q)" by (cases "quotient_of x")
  have q: "0 < q" using pq by (rule quotient_of_denom_pos)
  have x: "x = of_int p / of_int q" using pq by (rule quotient_of_div)
  have p: "0 < p" using assms q x by (simp add: zero_less_divide_iff)
  have xq: "x * of_int q = of_int p" using x q by simp
  define d where "d = bitlen p - bitlen q"
  have bp: "1 \<le> bitlen p" and bq: "1 \<le> bitlen q"
    using p q by (simp_all add: bitlen_alt_def)
  have "2 ^ nat (bitlen p - 1) \<le> p" "p < 2 ^ nat (bitlen p)"
    using bitlen_bounds [OF p] by simp_all
  then have "(2::rat) ^ nat (bitlen p - 1) \<le> of_int p" "(of_int p :: rat) < 2 ^ nat (bitlen p)"
    by (metis of_int_le_iff of_int_numeral of_int_power, metis of_int_less_iff of_int_numeral of_int_power)
  then have p1: "pow2 (bitlen p - 1) \<le> of_int p" and p2: "of_int p < pow2 (bitlen p)"
    using bp by (simp_all add: pow2_def)
  have "2 ^ nat (bitlen q - 1) \<le> q" "q < 2 ^ nat (bitlen q)"
    using bitlen_bounds [OF q] by simp_all
  then have "(2::rat) ^ nat (bitlen q - 1) \<le> of_int q" "(of_int q :: rat) < 2 ^ nat (bitlen q)"
    by (metis of_int_le_iff of_int_numeral of_int_power, metis of_int_less_iff of_int_numeral of_int_power)
  then have q1: "pow2 (bitlen q - 1) \<le> of_int q" and q2: "of_int q < pow2 (bitlen q)"
    using bq by (simp_all add: pow2_def)
  have "x * of_int q < pow2 (d + 1) * pow2 (bitlen q - 1)"
    using p2 xq pow2_add [of "d + 1" "bitlen q - 1"] by (simp add: d_def)
  also have "\<dots> \<le> pow2 (d + 1) * of_int q"
    using q1 by (simp add: mult_left_mono less_imp_le)
  finally have up: "x < pow2 (d + 1)" using q by simp
  have "pow2 (d - 1) * of_int q < pow2 (d - 1) * pow2 (bitlen q)"
    using q2 by (simp add: mult_strict_left_mono)
  also have "\<dots> = pow2 (bitlen p - 1)"
    using pow2_add [of "d - 1" "bitlen q"] by (simp add: d_def)
  also have "\<dots> \<le> x * of_int q" using p1 xq by simp
  finally have lo: "pow2 (d - 1) < x" using q by simp
  show ?thesis
    using up lo pq by (auto simp: floor_log2_def Let_def d_def not_le)
qed

lemma floor_log2_unique:
  assumes "0 < x" "pow2 e \<le> x" "x < pow2 (e + 1)"
  shows "floor_log2 x = e"
proof -
  have "pow2 (floor_log2 x) < pow2 (e + 1)" "pow2 e < pow2 (floor_log2 x + 1)"
    using floor_log2_bounds [OF assms(1)] assms(2,3) by linarith+
  then show ?thesis by simp
qed

lemma floor_log2_mono:
  assumes "0 < x" "x \<le> y"
  shows "floor_log2 x \<le> floor_log2 y"
proof -
  have "pow2 (floor_log2 x) < pow2 (floor_log2 y + 1)"
    using floor_log2_bounds [OF assms(1)] floor_log2_bounds [of y] assms by linarith
  then show ?thesis by simp
qed

lemma floor_log2_less:
  assumes "0 < x" "x < pow2 e"
  shows "floor_log2 x < e"
proof -
  have "pow2 (floor_log2 x) < pow2 e"
    using floor_log2_bounds [OF assms(1)] assms(2) by linarith
  then show ?thesis by simp
qed

lemma rhe_of_int [simp]: "round_half_even (of_int n) = n"
  by (simp add: round_half_even_def)

lemma rhe_bounds: "\<lfloor>x\<rfloor> \<le> round_half_even x \<and> round_half_even x \<le> \<lfloor>x\<rfloor> + 1"
  by (simp add: round_half_even_def Let_def)

lemma rhe_mono:
  assumes "x \<le> y"
  shows "round_half_even x \<le> round_half_even y"
proof (cases "\<lfloor>x\<rfloor> = \<lfloor>y\<rfloor>")
  case True
  then show ?thesis using assms by (auto simp: round_half_even_def Let_def)
next
  case False
  then have "\<lfloor>x\<rfloor> + 1 \<le> \<lfloor>y\<rfloor>" using floor_mono [OF assms] by simp
  then show ?thesis using rhe_bounds [of x] rhe_bounds [of y] by linarith
qed


lemma quantum_expo: "quantum x = pow2 (expo x - 52)"
  by (simp add: quantum_def)

lemma expo_mono: "0 < x \<Longrightarrow> x \<le> y \<Longrightarrow> expo x \<le> expo y"
  using floor_log2_mono [of x y] by (simp add: expo_def max.coboundedI1)

lemma expo_upper: "0 < x \<Longrightarrow> x < pow2 (expo x + 1)"
proof -
  assume x: "0 < x"
  have "x < pow2 (floor_log2 x + 1)" using floor_log2_bounds [OF x] by simp
  also have "\<dots> \<le> pow2 (expo x + 1)" by (simp add: expo_def)
  finally show ?thesis .
qed

lemma round_mag_upper:
  assumes "0 < x"
  shows "round_mag x \<le> pow2 (expo x + 1)"
proof -
  have "x / quantum x < pow2 (expo x + 1) / pow2 (expo x - 52)"
    using expo_upper [OF assms] by (simp add: quantum_expo divide_strict_right_mono)
  also have "pow2 (expo x + 1) = pow2 53 * pow2 (expo x - 52)"
    using pow2_add [of 53 "expo x - 52"] by (simp add: algebra_simps)
  finally have "x / quantum x \<le> of_int (2 ^ 53)"
    by (simp add: pow2_def)
  then have "round_half_even (x / quantum x) \<le> round_half_even (of_int (2 ^ 53))"
    by (rule rhe_mono)
  then have "round_half_even (x / quantum x) \<le> 2 ^ 53" by (simp only: rhe_of_int)
  then have "(of_int (round_half_even (x / quantum x)) :: rat) \<le> of_int (2 ^ 53)"
    by (simp only: of_int_le_iff)
  then have "round_mag x \<le> of_int (2 ^ 53) * pow2 (expo x - 52)"
    unfolding round_mag_def quantum_expo by (simp add: mult_right_mono less_imp_le)
  also have "\<dots> = pow2 (expo x + 1)"
    using pow2_add [of 53 "expo x - 52"] pow2_nat [of 53] by (simp add: algebra_simps)
  finally show ?thesis .
qed

lemma round_mag_lower:
  assumes "0 < y" "- 1022 \<le> floor_log2 y"
  shows "pow2 (expo y) \<le> round_mag y"
proof -
  have e: "expo y = floor_log2 y" using assms(2) by (simp add: expo_def)
  have "pow2 (expo y) / pow2 (expo y - 52) \<le> y / quantum y"
    using floor_log2_bounds [OF assms(1)] e
    by (simp add: quantum_expo divide_right_mono less_imp_le)
  moreover have "pow2 (expo y) = pow2 52 * pow2 (expo y - 52)"
    using pow2_add [of 52 "expo y - 52"] by simp
  ultimately have "of_int (2 ^ 52) \<le> y / quantum y"
    by (simp add: pow2_def)
  then have "round_half_even (of_int (2 ^ 52)) \<le> round_half_even (y / quantum y)"
    by (rule rhe_mono)
  then have "2 ^ 52 \<le> round_half_even (y / quantum y)" by (simp only: rhe_of_int)
  then have "(of_int (2 ^ 52) :: rat) \<le> of_int (round_half_even (y / quantum y))"
    by (simp only: of_int_le_iff)
  then have "of_int (2 ^ 52) * pow2 (expo y - 52) \<le> round_mag y"
    unfolding round_mag_def quantum_expo by (simp add: mult_right_mono less_imp_le)
  moreover have "of_int (2 ^ 52) * pow2 (expo y - 52) = pow2 (expo y)"
    using pow2_add [of 52 "expo y - 52"] by (simp add: pow2_def)
  ultimately show ?thesis by simp
qed

lemma round_mag_mono:
  assumes "0 < x" "x \<le> y"
  shows "round_mag x \<le> round_mag y"
proof (cases "expo x = expo y")
  case True
  then have q: "quantum x = quantum y" by (simp add: quantum_expo)
  have "x / quantum y \<le> y / quantum y"
    using assms(2) by (simp add: quantum_expo divide_right_mono less_imp_le)
  then have "round_half_even (x / quantum y) \<le> round_half_even (y / quantum y)"
    by (rule rhe_mono)
  then show ?thesis
    unfolding round_mag_def q by (simp add: quantum_expo mult_right_mono less_imp_le)
next
  case False
  have y: "0 < y" using assms by simp
  have lt: "expo x < expo y" using False expo_mono [OF assms] by simp
  then have "- 1022 \<le> floor_log2 y" by (auto simp: expo_def max_def split: if_splits)
  then have "pow2 (expo y) \<le> round_mag y" using round_mag_lower [OF y] by simp
  moreover have "round_mag x \<le> pow2 (expo x + 1)" using round_mag_upper [OF assms(1)] .
  moreover have "pow2 (expo x + 1) \<le> pow2 (expo y)" using lt by simp
  ultimately show ?thesis by linarith
qed

lemma round_mag_exact:
  assumes "0 < k" "k < 2 ^ 53" "- 1074 \<le> t"
  shows "round_mag (of_int k * pow2 t) = of_int k * pow2 t"
proof -
  let ?x = "of_int k * pow2 t"
  have x: "0 < ?x" using assms(1) by simp
  have "(of_int k :: rat) < of_int (2 ^ 53)" using assms(2) by (simp only: of_int_less_iff)
  then have "?x < of_int (2 ^ 53) * pow2 t" by (rule mult_strict_right_mono) simp
  moreover have "(of_int (2 ^ 53) :: rat) = pow2 53" using pow2_nat [of 53] by simp
  ultimately have "?x < pow2 53 * pow2 t" by simp
  then have "?x < pow2 (53 + t)" by (simp add: pow2_add)
  then have "floor_log2 ?x < 53 + t" using floor_log2_less [OF x] by simp
  then have e: "expo ?x - 52 \<le> t" using assms(3) by (simp add: expo_def)
  define e where "e = expo ?x"
  define s where "s = t - (e - 52)"
  have s: "0 \<le> s" using e by (simp add: s_def e_def)
  have q: "quantum ?x = pow2 (e - 52)" by (simp add: quantum_expo e_def)
  have pt: "pow2 t = pow2 s * pow2 (e - 52)"
    using pow2_add [of s "e - 52"] by (simp add: s_def)
  have ps: "pow2 s = of_int (2 ^ nat s)" using s by (simp add: pow2_def)
  have "?x / quantum ?x = ?x / pow2 (e - 52)" by (simp only: q)
  also have "\<dots> = of_int k * (pow2 s * pow2 (e - 52)) / pow2 (e - 52)" by (simp only: pt)
  also have "\<dots> = of_int k * pow2 s" by simp
  also have "\<dots> = of_int (k * 2 ^ nat s)" unfolding ps by simp
  finally have "round_half_even (?x / quantum ?x) = k * 2 ^ nat s" by (simp only: rhe_of_int)
  then have "round_mag ?x = of_int (k * 2 ^ nat s) * pow2 (e - 52)"
    by (simp add: round_mag_def q)
  also have "\<dots> = of_int k * (pow2 s * pow2 (e - 52))" unfolding ps by simp
  also have "\<dots> = ?x" unfolding pt by simp
  finally show ?thesis .
qed


lemma to_double_pos:
  assumes "0 < x" "0 < round_mag x" "round_mag x < pow2 1024"
  shows "to_double x = Finite (round_mag x)"
proof -
  have "floor_log2 (round_mag x) < 1024" using floor_log2_less [OF assms(2,3)] .
  then show ?thesis using assms(1,2) by (simp add: to_double_def Let_def)
qed

lemma round_mag_of_nat:
  assumes "0 < n" "n < 2 ^ 53"
  shows "round_mag (of_nat n) = of_nat n"
proof -
  have "int n < 2 ^ 53" using assms(2) by (metis of_nat_less_iff of_nat_numeral of_nat_power)
  then show ?thesis
    using round_mag_exact [of "int n" 0] assms(1) by (simp add: pow2_def)
qed

lemma float_of_int_exact:
  assumes "0 < n" "n < 2 ^ 53"
  shows "float_of_int (int n) = Finite (of_nat n)"
proof -
  have r: "round_mag (of_nat n) = of_nat n" using assms by (rule round_mag_of_nat)
  have "(of_nat n :: rat) < of_nat (2 ^ 53)" using assms(2) by (simp only: of_nat_less_iff)
  also have "(of_nat (2 ^ 53) :: rat) \<le> pow2 1024" by (simp add: pow2_def)
  finally have "round_mag (of_nat n) < pow2 1024" using r by simp
  then show ?thesis
    using to_double_pos [of "of_nat n"] assms(1) r by (simp add: float_of_int_def)
qed

lemma c07_value: "c07 = Finite (3152519739159347 / 4503599627370496)"
  unfolding c07_def by code_simp

lemma threshold_exact:
  assumes "0 < n" "n < 2 ^ 49" "found \<le> n"
  shows "int_ge (int found) (fmul (float_of_int (int n)) c07) \<longleftrightarrow> 7 * n \<le> 10 * found"
proof -
  let ?c = "3152519739159347 / 4503599627370496 :: rat"
  let ?x = "of_nat n * ?c"
  have n53: "n < 2 ^ 53"
    using assms(2) less_trans [of n "2 ^ 49" "2 ^ 53"] by simp
  have nr: "(of_nat n :: rat) < 2 ^ 49"
    using assms(2) by (metis of_nat_less_iff of_nat_numeral of_nat_power)
  have n1: "(1 :: rat) \<le> of_nat n" using assms(1) by simp
  have x: "0 < ?x" using assms(1) by simp
  have xn: "?x \<le> of_nat n" using n1 by simp
  have up: "round_mag ?x \<le> of_nat n"
    using round_mag_mono [OF x xn] round_mag_of_nat [OF assms(1) n53] by simp
  have "round_mag (of_int 1 * pow2 (- 1)) = of_int 1 * pow2 (- 1)"
    by (rule round_mag_exact) simp_all
  then have h: "round_mag (1 / 2) = 1 / 2" by (simp add: pow2_def)
  have "(1 / 2 :: rat) \<le> ?x" using n1 by simp
  then have "round_mag (1 / 2) \<le> round_mag ?x" by (rule round_mag_mono [rotated]) simp
  then have lo: "0 < round_mag ?x" using h by simp
  have "round_mag ?x < pow2 1024"
  proof -
    have "round_mag ?x < 2 ^ 49" using up nr by simp
    also have "(2 ^ 49 :: rat) \<le> pow2 1024" by (simp add: pow2_def)
    finally show ?thesis .
  qed
  then have td: "to_double ?x = Finite (round_mag ?x)" using to_double_pos [OF x lo] by simp
  have fm: "fmul (float_of_int (int n)) c07 = to_double ?x"
    using assms(1) by (simp add: float_of_int_exact [OF assms(1) n53] c07_value fmul_def)
  have ge: "int_ge (int found) (fmul (float_of_int (int n)) c07)
      \<longleftrightarrow> round_mag ?x \<le> of_nat found"
    unfolding int_ge_def fm td by simp
  show ?thesis
  proof
    assume "int_ge (int found) (fmul (float_of_int (int n)) c07)"
    then have le: "round_mag ?x \<le> of_nat found" using ge by simp
    show "7 * n \<le> 10 * found"
    proof (rule ccontr)
      assume "\<not> 7 * n \<le> 10 * found"
      then have "10 * found + 1 \<le> 7 * n" by simp
      then have "(of_nat (10 * found + 1) :: rat) \<le> of_nat (7 * n)" by (simp only: of_nat_le_iff)
      then have f: "10 * (of_nat found :: rat) + 1 \<le> 7 * of_nat n" by simp
      let ?y = "of_int (16 * int found + 1) * pow2 (- 4)"
      have y: "?y = of_nat found + 1 / 16" by (simp add: pow2_def field_simps)
      have "found < 2 ^ 49" using assms(2,3) by simp
      then have "int found < 2 ^ 49" by (metis of_nat_less_iff of_nat_numeral of_nat_power)
      then have "16 * int found + 1 < 2 ^ 53" by simp
      then have ey: "round_mag ?y = ?y" by (intro round_mag_exact) simp_all
      have "?y \<le> ?x" unfolding y using f nr by simp
      moreover have "0 < ?y" unfolding y by (simp add: add_pos_nonneg)
      ultimately have "round_mag ?y \<le> round_mag ?x" by (rule round_mag_mono [rotated])
      then show False using le ey y by simp
    qed
  next
    assume a: "7 * n \<le> 10 * found"
    then have "(of_nat (7 * n) :: rat) \<le> of_nat (10 * found)" by (simp only: of_nat_le_iff)
    then have f: "7 * (of_nat n :: rat) \<le> 10 * of_nat found" by simp
    have fp: "0 < found" using a assms(1) by (cases found) simp_all
    have "found < 2 ^ 53" using assms(3) n53 by simp
    then have ef: "round_mag (of_nat found) = of_nat found" using fp by (intro round_mag_of_nat)
    have "?x \<le> of_nat found" using f by simp
    then have "round_mag ?x \<le> round_mag (of_nat found)" using x by (intro round_mag_mono)
    then show "int_ge (int found) (fmul (float_of_int (int n)) c07)" using ge ef by simp
  qed
qed


section \<open>Matches and their positions\<close>

lemma findall_occurrences: "findall p k s = map snd (occurrences p i k s)"
  by (induction p i k s rule: occurrences.induct) (auto split: option.splits)

lemma occurrences_from: "(j, g) \<in> set (occurrences p i k s) \<Longrightarrow> i \<le> j"
  by (induction p i k s rule: occurrences.induct) (fastforce split: option.splits)+

lemma occurrences_sorted: "sorted_wrt (<) (map fst (occurrences p i k s))"
  by (induction p i k s rule: occurrences.induct)
     (auto split: option.splits dest!: occurrences_from)

lemma occurrences_match:
  "(j, g) \<in> set (occurrences p i k s) \<Longrightarrow> \<exists>rest. p (drop (j - i) s) = Some (g, rest)"
proof (induction p i k s rule: occurrences.induct)
  case (1 p i k)
  then show ?case by simp
next
  case (2 p i k c cs)
  from 2(2) have m: "(j, g) \<in> set (occurrences p (Suc i) k cs)" by simp
  then have "Suc i \<le> j" by (rule occurrences_from)
  then have "j - i = Suc (j - Suc i)" by simp
  then show ?case using 2(1) [OF m] by simp
next
  case (3 p i c cs)
  show ?case
  proof (cases "j = i")
    case True
    then have "(i, g) \<in> set (occurrences p i 0 (c # cs))" using 3(3) by simp
    then show ?thesis using True
      by (auto split: option.splits dest!: occurrences_from)
  next
    case False
    then have "\<exists>k. (j, g) \<in> set (occurrences p (Suc i) k cs)
        \<and> (k = 0 \<and> p (c # cs) = None
           \<or> (\<exists>g' rest. p (c # cs) = Some (g', rest) \<and> k = length cs - length rest))"
      using 3(3) by (auto split: option.splits)
    then obtain k where k: "(j, g) \<in> set (occurrences p (Suc i) k cs)"
      and d: "k = 0 \<and> p (c # cs) = None
           \<or> (\<exists>g' rest. p (c # cs) = Some (g', rest) \<and> k = length cs - length rest)"
      by blast
    from k have "Suc i \<le> j" by (rule occurrences_from)
    then have e: "j - i = Suc (j - Suc i)" by simp
    from d show ?thesis
    proof
      assume "k = 0 \<and> p (c # cs) = None"
      then show ?thesis using 3(1) k e by simp
    next
      assume "\<exists>g' rest. p (c # cs) = Some (g', rest) \<and> k = length cs - length rest"
      then obtain g' rest where "p (c # cs) = Some (g', rest)" "k = length cs - length rest"
        by blast
      then show ?thesis using 3(2) [of "(g', rest)" g' rest] k e by simp
    qed
  qed
qed

lemma in_range_iff: "in_range v \<longleftrightarrow> is_finite v \<and> 0 \<le> fval v \<and> fval v \<le> 100"
  by (cases v) (simp_all add: in_range_def)

lemma percentages_of_filter:
  "percentages_of ms = filter in_range (List.map_filter py_float ms)"
  by (induction ms) (auto simp: List.map_filter_simps split: option.splits)

lemma py_float_Nil: "py_float [] = None"
  by (simp add: py_float_def strip_def lstrip_def rstrip_def take_sign_def lower_def
      parse_number_def)

section \<open>Properties of the orchestrator\<close>

lemma checks_add_check:
  "checks (add_check name r res)
     = checks res @ [\<lparr>field = name, matched = fst r, message = snd r\<rparr>]"
  by (simp add: add_check_def Let_def)

lemma overall_add_check:
  "overall_match (add_check name r res) = (overall_match res \<and> fst r)"
  by (auto simp: add_check_def Let_def)

lemma checks_run_checks:
  "checks (run_checks fmt text form) =
     [\<lparr>field = ''Brand Name'',
       matched = fst (check_match text (get form ''brandName'' []) ''Brand Name''),
       message = snd (check_match text (get form ''brandName'' []) ''Brand Name'')\<rparr>,
      \<lparr>field = ''Product Class/Type'',
       matched = fst (check_match text (get form ''productClass'' []) ''Product Class/Type''),
       message = snd (check_match text (get form ''productClass'' []) ''Product Class/Type'')\<rparr>,
      \<lparr>field = ''Alcohol Content'',
       matched = fst (check_alcohol fmt text (get form ''alcoholContent'' [])),
       message = snd (check_alcohol fmt text (get form ''alcoholContent'' []))\<rparr>]
     @ (if provided form ''netContents''
        then [\<lparr>field = ''Net Contents'',
               matched = fst (check_volume text (get form ''netContents'' [])),
               message = snd (check_volume text (get form ''netContents'' []))\<rparr>]
        else [])
     @ [\<lparr>field = ''Government Warning'',
         matched = fst (check_warning text),
         message = snd (check_warning text)\<rparr>]"
  by (simp add: run_checks_def Let_def checks_add_check)

lemma overall_run_checks:
  "overall_match (run_checks fmt text form) = list_all matched (checks (run_checks fmt text form))"
  unfolding checks_run_checks
  by (simp add: run_checks_def Let_def overall_add_check)

lemma verify_label_passes:
  assumes "files ''image'' = Some image_file" "filename image_file \<noteq> []"
    "image_open (content image_file) = Returned img"
    "image_to_string img = Returned text" "10 \<le> length (strip text)"
  shows "verify_label fmt image_open image_to_string form files
           = (Results (run_checks fmt text form), 200)"
proof -
  have "text \<noteq> []" using assms(5) by (auto simp: strip_def lstrip_def)
  then show ?thesis using assms by (simp add: verify_label_def)
qed

section \<open>The claims\<close>

text \<open>
  Claim C1. A run that passes both gates runs the checks in the order brand name,
  product class, alcohol content, net contents (only when an expected netContents is
  provided), government warning; each check run contributes exactly one result, and
  overall_match is the conjunction of the matched flags of the results in the list.
\<close>

theorem verify_label_runs_checks:
  assumes "files ''image'' = Some image_file" and "filename image_file \<noteq> []"
    and "image_open (content image_file) = Returned img"
    and "image_to_string img = Returned text" and "10 \<le> length (strip text)"
  shows "verify_label fmt image_open image_to_string form files
           = (Results (run_checks fmt text form), 200)
    \<and> checks (run_checks fmt text form) =
       [\<lparr>field = ''Brand Name'',
         matched = fst (check_match text (get form ''brandName'' []) ''Brand Name''),
         message = snd (check_match text (get form ''brandName'' []) ''Brand Name'')\<rparr>,
        \<lparr>field = ''Product Class/Type'',
         matched = fst (check_match text (get form ''productClass'' []) ''Product Class/Type''),
         message = snd (check_match text (get form ''productClass'' []) ''Product Class/Type'')\<rparr>,
        \<lparr>field = ''Alcohol Content'',
         matched = fst (check_alcohol fmt text (get form ''alcoholContent'' [])),
         message = snd (check_alcohol fmt text (get form ''alcoholContent'' []))\<rparr>]
       @ (if provided form ''netContents''
          then [\<lparr>field = ''Net Contents'',
                 matched = fst (check_volume text (get form ''netContents'' [])),
                 message = snd (check_volume text (get form ''netContents'' []))\<rparr>]
          else [])
       @ [\<lparr>field = ''Government Warning'',
           matched = fst (check_warning text),
           message = snd (check_warning text)\<rparr>]
    \<and> overall_match (run_checks fmt text form)
        = list_all matched (checks (run_checks fmt text form))"
  using verify_label_passes [of files image_file image_open img image_to_string "text" fmt form]
    assms checks_run_checks [of fmt "text" form] overall_run_checks [of fmt "text" form]
  by simp

theorem verify_label_runs_checks_witness:
  "verify_label (\<lambda>x. ''40.0'') Returned Returned
     [''brandName'' \<mapsto> ''Old Barrel'', ''productClass'' \<mapsto> ''Whiskey'',
      ''alcoholContent'' \<mapsto> ''40'', ''netContents'' \<mapsto> ''750 ml'']
     [''image'' \<mapsto> \<lparr>filename = ''label.png'',
        content = ''Old Barrel Whiskey 40% 750 mL GOVERNMENT WARNING''\<rparr>]
   = (Results \<lparr>overall_match = True,
        extracted_text_preview =
          ''Old Barrel Whiskey 40% 750 mL GOVERNMENT WARNING'',
        checks =
          [\<lparr>field = ''Brand Name'', matched = True, message = ''Brand Name found on label''\<rparr>,
           \<lparr>field = ''Product Class/Type'', matched = True,
             message = ''Product Class/Type found on label''\<rparr>,
           \<lparr>field = ''Alcohol Content'', matched = True,
             message = ''Alcohol content matches: 40.0%''\<rparr>,
           \<lparr>field = ''Net Contents'', matched = True, message = ''Net contents matches: 750 ml''\<rparr>,
           \<lparr>field = ''Government Warning'', matched = True,
             message = ''Government warning found on label''\<rparr>]\<rparr>, 200)"
proof -
  let ?text = "''Old Barrel Whiskey 40% 750 mL GOVERNMENT WARNING''"
  let ?form = "[''brandName'' \<mapsto> ''Old Barrel'', ''productClass'' \<mapsto> ''Whiskey'',
      ''alcoholContent'' \<mapsto> ''40'', ''netContents'' \<mapsto> ''750 ml'']"
  have len: "10 \<le> length (strip ?text)" by code_simp
  have run: "run_checks (\<lambda>x. ''40.0'') ?text ?form =
     \<lparr>overall_match = True, extracted_text_preview = ?text,
        checks =
          [\<lparr>field = ''Brand Name'', matched = True, message = ''Brand Name found on label''\<rparr>,
           \<lparr>field = ''Product Class/Type'', matched = True,
             message = ''Product Class/Type found on label''\<rparr>,
           \<lparr>field = ''Alcohol Content'', matched = True,
             message = ''Alcohol content matches: 40.0%''\<rparr>,
           \<lparr>field = ''Net Contents'', matched = True, message = ''Net contents matches: 750 ml''\<rparr>,
           \<lparr>field = ''Government Warning'', matched = True,
             message = ''Government warning found on label''\<rparr>]\<rparr>"
    by code_simp
  show ?thesis
    using verify_label_runs_checks [of
        "[''image'' \<mapsto> \<lparr>filename = ''label.png'', content = ?text\<rparr>]"
        "\<lparr>filename = ''label.png'', content = ?text\<rparr>" Returned ?text Returned ?text
        "\<lambda>x. ''40.0''" ?form] len run
    by simp
qed

text \<open>
  Claim C2, amended. When the expected alcohol value parses to a number \<open>v\<close>, the
  matcher succeeds if and only if some percentage \<open>c\<close> extracted from the label
  passes the test \<open>abs(c - v) <= 0.5\<close> of the source, evaluated on the binary64
  numbers the texts parse to, with the difference rounded to the nearest binary64
  number. The success names a candidate that passes the test; a failure reports the
  first candidate (when there is one) and the expected value. Expected 40.0 matches the
  label value 40.5 and not 40.6.
\<close>

theorem check_alcohol_tolerance:
  assumes "py_float (filter (\<lambda>c. c \<noteq> CHR ''%'' \<and> \<not> is_space c) form_abv) = Some v"
  shows "(fst (check_alcohol fmt label_text form_abv) \<longleftrightarrow>
            (\<exists>c\<in>set (find_percentage label_text). within_tolerance c v))
    \<and> (fst (check_alcohol fmt label_text form_abv) \<longrightarrow>
          (\<exists>c\<in>set (find_percentage label_text). within_tolerance c v
             \<and> check_alcohol fmt label_text form_abv
                 = (True, ''Alcohol content matches: '' @ fmt c @ ''%'')))
    \<and> (\<not> fst (check_alcohol fmt label_text form_abv) \<longrightarrow>
          check_alcohol fmt label_text form_abv
            = (case find_percentage label_text of
                 [] \<Rightarrow> (False, ''Alcohol content not found on label (expected ''
                                @ fmt v @ ''%)'')
               | first # others \<Rightarrow>
                   (False, ''Alcohol content mismatch: found '' @ fmt first
                           @ ''%, expected '' @ fmt v @ ''%'')))"
proof -
  have ne: "form_abv \<noteq> []" using assms py_float_Nil by auto
  show ?thesis
  proof (cases "find_percentage label_text")
    case Nil
    then show ?thesis using assms ne by (simp add: check_alcohol_def)
  next
    case (Cons first others)
    let ?f = "find (\<lambda>label_val. within_tolerance label_val v) (first # others)"
    have ca: "check_alcohol fmt label_text form_abv =
        (case ?f of
           Some label_val \<Rightarrow> (True, ''Alcohol content matches: '' @ fmt label_val @ ''%'')
         | None \<Rightarrow> (False, ''Alcohol content mismatch: found '' @ fmt first
                          @ ''%, expected '' @ fmt v @ ''%''))"
      using assms ne Cons by (simp add: check_alcohol_def)
    show ?thesis
    proof (cases ?f)
      case None
      then show ?thesis
        using find_NoneD [OF None] Cons unfolding ca by auto
    next
      case (Some c)
      then show ?thesis
        using find_SomeD [OF Some] Cons unfolding ca by auto
    qed
  qed
qed

theorem check_alcohol_tolerance_witness:
  "check_alcohol (\<lambda>x. if x = Finite 40 then ''40.0'' else if x = Finite (81 / 2) then ''40.5''
                       else ''40.6'') ''ALC 40.5% '' ''40.0''
     = (True, ''Alcohol content matches: 40.5%'')
   \<and> check_alcohol (\<lambda>x. if x = Finite 40 then ''40.0'' else if x = Finite (81 / 2) then ''40.5''
                         else ''40.6'') ''ALC 40.6% '' ''40.0''
       = (False, ''Alcohol content mismatch: found 40.6%, expected 40.0%'')
   \<and> within_tolerance (Finite (81 / 2)) (Finite 40)
   \<and> \<not> within_tolerance (Finite (5713942027226317 / 140737488355328)) (Finite 40)"
proof -
  let ?fmt = "\<lambda>x. if x = Finite 40 then ''40.0'' else if x = Finite (81 / 2) then ''40.5''
                   else ''40.6''"
  have p: "py_float (filter (\<lambda>c. c \<noteq> CHR ''%'' \<and> \<not> is_space c) ''40.0'') = Some (Finite 40)"
    by code_simp
  have 1: "find_percentage ''ALC 40.5% '' = [Finite (81 / 2)]" by code_simp
  have 2: "find_percentage ''ALC 40.6% '' = [Finite (5713942027226317 / 140737488355328)]"
    by code_simp
  have 3: "within_tolerance (Finite (81 / 2)) (Finite 40)" by code_simp
  have 4: "\<not> within_tolerance (Finite (5713942027226317 / 140737488355328)) (Finite 40)"
    by code_simp
  show ?thesis
    using check_alcohol_tolerance [OF p, of ?fmt "''ALC 40.5% ''"]
      check_alcohol_tolerance [OF p, of ?fmt "''ALC 40.6% ''"] 1 2 3 4
    by auto
qed

text \<open>
  The tolerance of claim C2 read as an inequality between numbers does not decide the
  match, whichever numbers are taken. The label 3.9% and the expected 4.4 are exactly
  0.5 apart as decimal numbers and do not match: the binary64 numbers they parse to,
  3.899999999999999911 and 4.400000000000000355, are 0.5000000000000004 apart. The label
  0.3% and the expected 0.8 match, though the binary64 numbers they parse to are more
  than 0.5 apart (by \<open>2^-54\<close>): their difference rounds to 0.5.
\<close>

theorem check_alcohol_tolerance_counterexample:
  "parse_number ''3.9'' = Some (39 / 10) \<and> parse_number ''4.4'' = Some (22 / 5)
   \<and> \<bar>39 / 10 - 22 / 5 :: rat\<bar> \<le> 1 / 2
   \<and> find_percentage ''3.9%'' = [Finite (8782019273372467 / 2251799813685248)]
   \<and> py_float ''4.4'' = Some (Finite (2476979795053773 / 562949953421312))
   \<and> \<not> fst (check_alcohol (\<lambda>x. []) ''3.9%'' ''4.4'')
   \<and> find_percentage ''0.3%'' = [Finite (5404319552844595 / 18014398509481984)]
   \<and> py_float ''0.8'' = Some (Finite (3602879701896397 / 4503599627370496))
   \<and> \<not> \<bar>5404319552844595 / 18014398509481984 - 3602879701896397 / 4503599627370496 :: rat\<bar>
         \<le> 1 / 2
   \<and> fst (check_alcohol (\<lambda>x. []) ''0.3%'' ''0.8'')"
proof -
  have 1: "parse_number ''3.9'' = Some (39 / 10)" by code_simp
  have 2: "parse_number ''4.4'' = Some (22 / 5)" by code_simp
  have 3: "find_percentage ''3.9%'' = [Finite (8782019273372467 / 2251799813685248)]"
    by code_simp
  have 4: "py_float ''4.4'' = Some (Finite (2476979795053773 / 562949953421312))"
    by code_simp
  have 5: "\<not> fst (check_alcohol (\<lambda>x. []) ''3.9%'' ''4.4'')" by code_simp
  have 6: "find_percentage ''0.3%'' = [Finite (5404319552844595 / 18014398509481984)]"
    by code_simp
  have 7: "py_float ''0.8'' = Some (Finite (3602879701896397 / 4503599627370496))"
    by code_simp
  have 8: "fst (check_alcohol (\<lambda>x. []) ''0.3%'' ''0.8'')" by code_simp
  show ?thesis using 1 2 3 4 5 6 7 8 by simp
qed

text \<open>
  Claim C3. For an expected text field with more than one whitespace-delimited token
  whose normalized form is no substring of the normalized label text, the matcher
  answers "partially matched" exactly when the number of (lowercased) tokens that occur
  in the normalized label text is at least the token count times 0.7, as the source
  computes it in binary64; below \<open>2^49\<close> tokens this is the exact comparison
  \<open>7 * count \<le> 10 * found\<close>. Otherwise the answer is "not found on label": 2 tokens
  of 3 fail.
\<close>

theorem check_match_partial:
  assumes "1 < length (split form_value)"
    and "\<not> str_in (normalize_text form_value) (normalize_text label_text)"
  shows "(check_match label_text form_value field_name
            = (True, field_name @ '' partially matched'')
          \<longleftrightarrow> int_ge (int (length (filter (\<lambda>word. str_in word (normalize_text label_text))
                                            (map lower (split form_value)))))
                     (fmul (float_of_int (int (length (split form_value)))) c07))
    \<and> (length (split form_value) < 2 ^ 49 \<longrightarrow>
          (check_match label_text form_value field_name
             = (True, field_name @ '' partially matched'')
           \<longleftrightarrow> 7 * length (split form_value)
                 \<le> 10 * length (filter (\<lambda>word. str_in word (normalize_text label_text))
                                      (map lower (split form_value)))))
    \<and> (check_match label_text form_value field_name
          = (True, field_name @ '' partially matched'')
        \<or> check_match label_text form_value field_name
          = (False, field_name @ '' not found on label''))"
proof -
  let ?n = "length (split form_value)"
  let ?found = "length (filter (\<lambda>word. str_in word (normalize_text label_text))
                         (map lower (split form_value)))"
  let ?ge = "int_ge (int ?found) (fmul (float_of_int (int ?n)) c07)"
  have ne: "form_value \<noteq> []" using assms(1) by auto
  have cm: "check_match label_text form_value field_name =
      (if ?ge then (True, field_name @ '' partially matched'')
       else (False, field_name @ '' not found on label''))"
    using assms ne
    by (simp add: check_match_def Let_def words_found_def split_normalize_text)
  have le: "?found \<le> ?n"
    using length_filter_le [of "\<lambda>word. str_in word (normalize_text label_text)"
        "map lower (split form_value)"]
    by (simp only: length_map)
  have pos: "0 < ?n" using assms(1) by linarith
  have "?ge \<longleftrightarrow> 7 * ?n \<le> 10 * ?found" if "?n < 2 ^ 49"
    using pos that le by (rule threshold_exact)
  then show ?thesis unfolding cm using pos by (auto simp del: filter_map)
qed

theorem check_match_partial_witness:
  "check_match ''old barrel'' ''Old Barrel Reserve'' ''Brand Name''
     = (False, ''Brand Name not found on label'')
   \<and> check_match ''old barrel whiskey'' ''Old Barrel Reserve Whiskey'' ''Brand Name''
     = (True, ''Brand Name partially matched'')"
proof -
  let ?f = "\<lambda>label form. length (filter (\<lambda>word. str_in word (normalize_text label))
                                       (map lower (split form)))"
  have 1: "split ''Old Barrel Reserve'' = [''Old'', ''Barrel'', ''Reserve'']" by code_simp
  have 2: "\<not> str_in (normalize_text ''Old Barrel Reserve'') (normalize_text ''old barrel'')"
    by code_simp
  have 3: "?f ''old barrel'' ''Old Barrel Reserve'' = 2" by code_simp
  have 4: "split ''Old Barrel Reserve Whiskey'' = [''Old'', ''Barrel'', ''Reserve'', ''Whiskey'']"
    by code_simp
  have 5: "\<not> str_in (normalize_text ''Old Barrel Reserve Whiskey'')
               (normalize_text ''old barrel whiskey'')"
    by code_simp
  have 6: "?f ''old barrel whiskey'' ''Old Barrel Reserve Whiskey'' = 3" by code_simp
  have a: "1 < length (split ''Old Barrel Reserve'')" using 1 by simp
  have b: "1 < length (split ''Old Barrel Reserve Whiskey'')" using 4 by simp
  note t1 = check_match_partial [OF a 2, of "''Brand Name''", unfolded 3]
  note t2 = check_match_partial [OF b 5, of "''Brand Name''", unfolded 6]
  show ?thesis using t1 t2 by (auto simp: 1 4)
qed

text \<open>
  Claim C4. The government-warning check succeeds at once when the normalized text
  contains the phrase "government warning" (so the phrase in any case in the raw text
  passes); otherwise it succeeds with "partially found" exactly when at least two of the
  four phrases "pregnant", "driving", "operating machinery", "health problems" occur in
  the normalized text; otherwise it fails (a text with "pregnant" alone fails).
\<close>

theorem check_warning_cases:
  fixes label_text :: string
  defines "t \<equiv> normalize_text label_text"
  defines "n \<equiv> card {p \<in> {''pregnant'', ''driving'', ''operating machinery'',
                               ''health problems''}. str_in p t}"
  shows "(str_in ''government warning'' (lower label_text) \<longrightarrow> str_in ''government warning'' t)
    \<and> (str_in ''government warning'' t \<longrightarrow>
          check_warning label_text = (True, ''Government warning found on label''))
    \<and> (\<not> str_in ''government warning'' t \<and> 2 \<le> n \<longrightarrow>
          check_warning label_text = (True, ''Government warning partially found''))
    \<and> (\<not> str_in ''government warning'' t \<and> n < 2 \<longrightarrow>
          check_warning label_text = (False, ''Government warning not found on label''))"
proof -
  have "normalized ''government warning''" by code_simp
  then have "str_in ''government warning'' (lower label_text) \<longrightarrow> str_in ''government warning'' t"
    unfolding t_def using str_in_normalize_text [of "''government warning''" label_text] by simp
  moreover have "length (filter (\<lambda>p. str_in p t) phrases) = n"
    unfolding n_def by (rule phrases_count)
  ultimately show ?thesis
    by (simp add: check_warning_def Let_def t_def [symmetric])
qed

theorem check_warning_witness:
  "check_warning ''GOVERNMENT  WARNING: (1) According to the Surgeon General''
     = (True, ''Government warning found on label'')
   \<and> check_warning ''women who are Pregnant; impairs Driving''
     = (True, ''Government warning partially found'')
   \<and> check_warning ''pregnant'' = (False, ''Government warning not found on label'')"
proof -
  let ?P = "\<lambda>t p. str_in p (normalize_text t)"
  have c: "\<And>t. card {p \<in> {''pregnant'', ''driving'', ''operating machinery'',
                  ''health problems''}. ?P t p} = length (filter (?P t) phrases)"
    by (rule phrases_count [symmetric])
  have 1: "str_in ''government warning''
             (normalize_text ''GOVERNMENT  WARNING: (1) According to the Surgeon General'')"
    by code_simp
  have 2: "\<not> str_in ''government warning''
               (normalize_text ''women who are Pregnant; impairs Driving'')"
    by code_simp
  have 3: "length (filter (?P ''women who are Pregnant; impairs Driving'') phrases) = 2"
    by code_simp
  have 4: "\<not> str_in ''government warning'' (normalize_text ''pregnant'')"
    by code_simp
  have 5: "length (filter (?P ''pregnant'') phrases) = 1"
    by code_simp
  show ?thesis
    using check_warning_cases [of "''GOVERNMENT  WARNING: (1) According to the Surgeon General''"]
      check_warning_cases [of "''women who are Pregnant; impairs Driving''"]
      check_warning_cases [of "''pregnant''"] 1 2 3 4 5
    unfolding c by simp
qed

text \<open>
  Claim C5. Percentage extraction returns only values of the range from 0 to 100: the
  result is the list of the parsed matches of "<number>%" with the values outside the
  range left out, no error is raised for them, and the values stand in the order in
  which their matches start in the text. "45%" gives 45.0 and "145%" gives nothing.
\<close>

theorem find_percentage_range_order:
  "(\<forall>v\<in>set (find_percentage t). is_finite v \<and> 0 \<le> fval v \<and> fval v \<le> 100)
   \<and> find_percentage t
       = filter in_range
           (List.map_filter py_float (map snd (occurrences percent_re 0 0 (lower t))))
   \<and> sorted_wrt (<) (map fst (occurrences percent_re 0 0 (lower t)))
   \<and> (\<forall>(i, m)\<in>set (occurrences percent_re 0 0 (lower t)).
         \<exists>rest. percent_re (drop i (lower t)) = Some (m, rest))"
proof -
  have eq: "find_percentage t
       = filter in_range
           (List.map_filter py_float (map snd (occurrences percent_re 0 0 (lower t))))"
    by (simp add: find_percentage_def percentages_of_filter
        findall_occurrences [of percent_re 0 "lower t" 0])
  have "\<forall>v\<in>set (find_percentage t). in_range v"
    unfolding eq by simp
  then have "\<forall>v\<in>set (find_percentage t). is_finite v \<and> 0 \<le> fval v \<and> fval v \<le> 100"
    by (simp add: in_range_iff)
  moreover have "\<forall>(i, m)\<in>set (occurrences percent_re 0 0 (lower t)).
         \<exists>rest. percent_re (drop i (lower t)) = Some (m, rest)"
    using occurrences_match [of _ _ percent_re 0 0 "lower t"] by auto
  ultimately show ?thesis using eq occurrences_sorted by blast
qed

theorem find_percentage_range_order_witness:
  "find_percentage ''45%'' = [Finite 45] \<and> find_percentage ''145%'' = []
   \<and> occurrences percent_re 0 0 (lower ''12% X 145% 3.5 %'')
       = [(0, ''12''), (6, ''145''), (11, ''3.5'')]
   \<and> find_percentage ''12% X 145% 3.5 %'' = [Finite 12, Finite (7 / 2)]
   \<and> is_finite (Finite (7 / 2)) \<and> fval (Finite (7 / 2)) \<le> 100"
proof -
  have 1: "find_percentage ''45%'' = [Finite 45]" by code_simp
  have 2: "find_percentage ''145%'' = []" by code_simp
  have 3: "occurrences percent_re 0 0 (lower ''12% X 145% 3.5 %'')
             = [(0, ''12''), (6, ''145''), (11, ''3.5'')]" by code_simp
  have 4: "find_percentage ''12% X 145% 3.5 %'' = [Finite 12, Finite (7 / 2)]" by code_simp
  show ?thesis
    using find_percentage_range_order [of "''12% X 145% 3.5 %''"] 1 2 3 4 by simp
qed

text \<open>
  Claim C6. Net contents is the only optional field. With an empty expected value the
  volume matcher succeeds with "not required", and the orchestrator, when netContents
  is absent or empty, runs no net-contents check: the four other results alone decide
  overall_match. With a value provided and no volume candidate on the label, the
  matcher fails and names the expected value. The two other matchers with an expected
  value fail when it is empty.
\<close>

theorem net_contents_optional:
  "check_volume label_text [] = (True, ''Net contents not required'')
   \<and> (\<not> provided form ''netContents'' \<longrightarrow>
        map field (checks (run_checks fmt label_text form))
          = [''Brand Name'', ''Product Class/Type'', ''Alcohol Content'', ''Government Warning'']
        \<and> overall_match (run_checks fmt label_text form)
          = (fst (check_match label_text (get form ''brandName'' []) ''Brand Name'')
             \<and> fst (check_match label_text (get form ''productClass'' []) ''Product Class/Type'')
             \<and> fst (check_alcohol fmt label_text (get form ''alcoholContent'' []))
             \<and> fst (check_warning label_text)))
   \<and> (form_volume \<noteq> [] \<and> find_volume label_text = [] \<longrightarrow>
        check_volume label_text form_volume
          = (False, ''Net contents not found on label (expected '' @ form_volume @ '')''))
   \<and> check_match label_text [] field_name = (False, field_name @ '' not provided in form'')
   \<and> check_alcohol fmt label_text [] = (False, ''Alcohol content not provided'')"
  by (simp add: check_volume_def check_match_def check_alcohol_def overall_run_checks
      checks_run_checks)

theorem net_contents_optional_witness:
  "\<not> provided [''brandName'' \<mapsto> ''Old Barrel'', ''netContents'' \<mapsto> []] ''netContents''
   \<and> map field (checks (run_checks (\<lambda>x. ''40.0'') ''Old Barrel 40%''
                   [''brandName'' \<mapsto> ''Old Barrel'', ''netContents'' \<mapsto> []]))
       = [''Brand Name'', ''Product Class/Type'', ''Alcohol Content'', ''Government Warning'']
   \<and> find_volume ''Old Barrel 40%'' = []
   \<and> check_volume ''Old Barrel 40%'' ''750 ml''
       = (False, ''Net contents not found on label (expected 750 ml)'')"
proof -
  have 1: "\<not> provided [''brandName'' \<mapsto> ''Old Barrel'', ''netContents'' \<mapsto> []] ''netContents''"
    by (simp add: provided_def)
  have 2: "find_volume ''Old Barrel 40%'' = []" by code_simp
  show ?thesis
    using net_contents_optional [of "''Old Barrel 40%''"
        "[''brandName'' \<mapsto> ''Old Barrel'', ''netContents'' \<mapsto> []]" "\<lambda>x. ''40.0''"
        "''750 ml''"] 1 2
    by simp
qed

text \<open>
  Claim C7. With an expected volume provided and at least one volume candidate
  extracted, the volume matcher succeeds exactly when, for some candidate, the
  normalized expected string contains the normalized candidate or is contained in it
  (expected "5 ml" matches the candidate "25 ml"); the success names a candidate, and a
  failure reports the first candidate.
\<close>

theorem check_volume_cases:
  assumes "form_volume \<noteq> []" and "find_volume label_text = first # others"
  shows "(fst (check_volume label_text form_volume) \<longleftrightarrow>
           (\<exists>v\<in>set (first # others).
              str_in (normalize_text form_volume) (normalize_text v)
              \<or> str_in (normalize_text v) (normalize_text form_volume)))
    \<and> (fst (check_volume label_text form_volume) \<longrightarrow>
           (\<exists>v\<in>set (first # others).
              check_volume label_text form_volume = (True, ''Net contents matches: '' @ v)))
    \<and> (\<not> fst (check_volume label_text form_volume) \<longrightarrow>
           check_volume label_text form_volume
             = (False, ''Net contents mismatch: found '' @ first @ '', expected '' @ form_volume))"
proof -
  let ?f = "find (volume_agrees (normalize_text form_volume)) (first # others)"
  have cv: "check_volume label_text form_volume =
      (case ?f of
         Some label_vol \<Rightarrow> (True, ''Net contents matches: '' @ label_vol)
       | None \<Rightarrow> (False, ''Net contents mismatch: found '' @ first
                        @ '', expected '' @ form_volume))"
    using assms by (simp add: check_volume_def Let_def)
  show ?thesis
  proof (cases ?f)
    case None
    then show ?thesis
      using find_NoneD [OF None] unfolding cv by (auto simp: volume_agrees_def)
  next
    case (Some v)
    then show ?thesis
      using find_SomeD [OF Some] unfolding cv by (auto simp: volume_agrees_def)
  qed
qed

theorem check_volume_cases_witness:
  "find_volume ''Net 25 ml'' = [''25 ml'']
   \<and> check_volume ''Net 25 ml'' ''5 ml'' = (True, ''Net contents matches: 25 ml'')
   \<and> find_volume ''750ml'' = [''750 ml'']
   \<and> check_volume ''750ml'' ''750mL''
       = (False, ''Net contents mismatch: found 750 ml, expected 750mL'')"
proof -
  have 1: "find_volume ''Net 25 ml'' = [''25 ml'']" by code_simp
  have 2: "find_volume ''750ml'' = [''750 ml'']" by code_simp
  have 3: "str_in (normalize_text ''5 ml'') (normalize_text ''25 ml'')" by code_simp
  have 4: "\<not> str_in (normalize_text ''750mL'') (normalize_text ''750 ml'')"
    "\<not> str_in (normalize_text ''750 ml'') (normalize_text ''750mL'')" by code_simp+
  have 5: "check_volume ''Net 25 ml'' ''5 ml'' = (True, ''Net contents matches: 25 ml'')"
    by code_simp
  show ?thesis
    using check_volume_cases [OF _ 1, of "''5 ml''"] check_volume_cases [OF _ 2, of "''750mL''"]
      1 2 3 4 5 by simp
qed

text \<open>
  Claim C8. Normalization is idempotent: normalizing a normalized text gives the same
  text again, and a string that is already normalized (lowercase, single internal
  spaces, no leading or trailing whitespace) is returned unchanged.
\<close>

theorem normalize_text_idempotent:
  "normalize_text (normalize_text x) = normalize_text x
   \<and> (normalized s \<longrightarrow> normalize_text s = s)"
  using normalize_text_fixed [OF normalized_normalize_text] normalize_text_fixed
  by blast

theorem normalize_text_idempotent_witness:
  "normalize_text (normalize_text ''  Old   Barrel Whiskey '')
     = normalize_text ''  Old   Barrel Whiskey ''
   \<and> normalize_text ''  Old   Barrel Whiskey '' = ''old barrel whiskey''
   \<and> normalized ''old barrel'' \<and> normalize_text ''old barrel'' = ''old barrel''"
proof -
  have n: "normalized ''old barrel''" by code_simp
  have v: "normalize_text ''  Old   Barrel Whiskey '' = ''old barrel whiskey''"
    by code_simp
  from normalize_text_idempotent [of "''  Old   Barrel Whiskey ''" "''old barrel''"] n v
  show ?thesis by blast
qed

text \<open>
  Claim C9. When the text the OCR engine returned has fewer than 10 characters after
  trimming, the orchestrator answers with the client error that asks for a clearer
  image; the answer carries no verification result.
\<close>

theorem verify_label_unreadable:
  assumes "files ''image'' = Some image_file" and "filename image_file \<noteq> []"
    and "image_open (content image_file) = Returned img"
    and "image_to_string img = Returned text" and "length (strip text) < 10"
  shows "verify_label fmt image_open image_to_string form files
           = (Error ''Could not read text from image. Please try a clearer image.'' None, 400)"
  using assms by (simp add: verify_label_def)

theorem verify_label_unreadable_witness:
  "verify_label (\<lambda>x. ''40.0'') Returned Returned [''brandName'' \<mapsto> ''Old Barrel'']
     [''image'' \<mapsto> \<lparr>filename = ''label.png'', content = '' 40% 1''\<rparr>]
   = (Error ''Could not read text from image. Please try a clearer image.'' None, 400)"
proof -
  have "length (strip '' 40% 1'') < 10" by code_simp
  then show ?thesis
    using verify_label_unreadable [of
        "[''image'' \<mapsto> \<lparr>filename = ''label.png'', content = '' 40% 1''\<rparr>]"
        "\<lparr>filename = ''label.png'', content = '' 40% 1''\<rparr>" Returned "'' 40% 1''"
        Returned "'' 40% 1''" "\<lambda>x. ''40.0''" "[''brandName'' \<mapsto> ''Old Barrel'']"]
    by simp
qed

text \<open>
  Claim C10. An expected text field that is not empty but holds whitespace only
  normalizes to the empty string, which occurs in every normalized label text: the
  matcher answers "found on label" for every label, and not "not provided".
\<close>

theorem check_match_whitespace:
  assumes "form_value \<noteq> []" and "\<forall>c\<in>set form_value. is_space c"
  shows "normalize_text form_value = []
    \<and> check_match label_text form_value field_name = (True, field_name @ '' found on label'')"
  using assms by (simp add: check_match_def normalize_text_all_space)

theorem check_match_whitespace_witness:
  "check_match ''Old Barrel Whiskey'' ''   '' ''Brand Name'' = (True, ''Brand Name found on label'')"
proof -
  have "\<forall>c\<in>set ''   ''. is_space c" by code_simp
  then show ?thesis
    using check_match_whitespace [of "''   ''" "''Old Barrel Whiskey''" "''Brand Name''"] by simp
qed

end
